theory Spec2Isabelle
  imports
    Main
    "HOL-Library.Word"
    "HOL-Library.Multiset"
    "HOL-Library.Char_ord"
    "HOL-Library.List_Lexorder"
    "HOL-Library.Product_Lexorder"
begin

unbundle bit_operations_syntax

chapter \<open>libup: the filesystem layer of \<^verbatim>\<open>src/up_fs.cpp\<close>\<close>

text \<open>
  A shallow embedding of the functions of \<^verbatim>\<open>up_fs.cpp\<close>: \<^verbatim>\<open>std::string\<close> is a
  \<^typ>\<open>string\<close> (a list of bytes), a raised exception is the \<open>Inl\<close> branch of a sum,
  a lambda that captures by reference is a function on an explicit state, a pointer loop
  is a recursion on the part of the buffer that is still ahead of the pointer, and the
  operating system is a record of answers that the functions consult.
\<close>

section \<open>Exceptions\<close>

text \<open>
  \<^verbatim>\<open>UP_RAISE(runtime, tag, ...)\<close> raises the file's private \<^verbatim>\<open>runtime\<close> exception,
  \<^verbatim>\<open>UP_RAISE(up_fs::fs::locked_file, tag, ...)\<close> the public one. Both carry a tag; the
  further arguments are diagnostics and are left out.
\<close>

datatype error = runtime string | locked_file string

text \<open>\<^verbatim>\<open>check(rv, tag, ...)\<close>: a negative return value raises \<^verbatim>\<open>runtime\<close>.\<close>

definition check :: "int \<Rightarrow> string \<Rightarrow> error + int" where
  "check rv tag = (if rv \<ge> 0 then Inr rv else Inl (runtime tag))"

section \<open>Pathname normalization\<close>

text \<open>
  The lambda \<^verbatim>\<open>invoke\<close> inside \<^verbatim>\<open>pathname_split\<close>: the segment \<^verbatim>\<open>[first, last)\<close> is
  handed to the callable when \<^verbatim>\<open>first != last && (first + 1 != last || *first != '.')\<close>.
  The callable works on captured variables, here the state \<open>st\<close>.
\<close>

definition invoke :: "(string \<Rightarrow> 's \<Rightarrow> 's) \<Rightarrow> string \<Rightarrow> 's \<Rightarrow> 's" where
  "invoke callable seg st =
     (if seg \<noteq> [] \<and> (length seg \<noteq> 1 \<or> hd seg \<noteq> CHR ''.'') then callable seg st else st)"

text \<open>
  \<^verbatim>\<open>pathname_split\<close>: \<open>data\<close> is the range \<^verbatim>\<open>[p, q)\<close>; \<^verbatim>\<open>r = std::find(p, q, '/')\<close>
  is the end of the longest prefix without a slash, and \<^verbatim>\<open>r != q\<close> says that something
  is left from \<^verbatim>\<open>r\<close> on, whose first byte is the slash that \<^verbatim>\<open>p = r + 1\<close> skips.
\<close>

function pathname_split :: "string \<Rightarrow> (string \<Rightarrow> 's \<Rightarrow> 's) \<Rightarrow> 's \<Rightarrow> 's" where
  "pathname_split data callable st =
     (let seg = takeWhile (\<lambda>c. c \<noteq> CHR ''/'') data;
          rest = dropWhile (\<lambda>c. c \<noteq> CHR ''/'') data
      in if rest \<noteq> [] then pathname_split (tl rest) callable (invoke callable seg st)
         else invoke callable seg st)"
  by pat_completeness auto
termination
proof (relation "measure (\<lambda>(data, callable, st). length data)")
  show "wf (measure (\<lambda>(data, callable, st). length data))" by simp
next
  fix data :: string and callable :: "string \<Rightarrow> 's \<Rightarrow> 's" and st :: 's and x xa
  assume "xa = dropWhile (\<lambda>c. c \<noteq> CHR ''/'') data" and "xa \<noteq> []"
  then have "length (tl xa) < length xa" by (cases xa) auto
  moreover have "length xa \<le> length data"
    using \<open>xa = dropWhile (\<lambda>c. c \<noteq> CHR ''/'') data\<close> by (simp add: length_dropWhile_le)
  ultimately show "((tl xa, callable, invoke callable x st), (data, callable, st))
      \<in> measure (\<lambda>(data, callable, st). length data)" by simp
qed

declare pathname_split.simps [simp del]

text \<open>
  \<^verbatim>\<open>pathname_normalize\<close>: the lambda given to \<^verbatim>\<open>pathname_split\<close> captures the flag
  \<^verbatim>\<open>separator\<close> and the string \<^verbatim>\<open>result\<close>:
  \<^verbatim>\<open>result.append(separator ? 1 : 0, '/'); separator = true; result.append(name);\<close>
\<close>

record norm_state =
  norm_separator :: bool
  norm_result :: string

definition normalize_append :: "string \<Rightarrow> norm_state \<Rightarrow> norm_state" where
  "normalize_append name st =
     \<lparr>norm_separator = True,
      norm_result = norm_result st @ replicate (if norm_separator st then 1 else 0) CHR ''/'' @ name\<rparr>"

text \<open>
  \<^verbatim>\<open>pathname.compare(0, 1, "/") == 0\<close> compares the first byte, or nothing when the
  string is empty, with \<^verbatim>\<open>"/"\<close>. The last statement is
  \<^verbatim>\<open>result.append(result.empty() ? 1 : 0, absolute ? '/' : '.')\<close>.
\<close>

definition pathname_normalize :: "string \<Rightarrow> string" where
  "pathname_normalize pathname =
     (let absolute = (take 1 pathname = ''/'');
          st = pathname_split pathname normalize_append \<lparr>norm_separator = absolute, norm_result = []\<rparr>;
          r = norm_result st
      in r @ replicate (if r = [] then 1 else 0) (if absolute then CHR ''/'' else CHR ''.''))"

subsection \<open>Normalization as the specification words it\<close>

text \<open>
  The specification's reading, to be compared with the code: split on the slash (a string
  with \<open>n\<close> slashes has \<open>n + 1\<close> segments, empty ones included), keep the segments that
  are neither empty nor a single dot, join them with slashes behind the leading slash of
  an absolute input, and write \<^verbatim>\<open>"/"\<close> or \<^verbatim>\<open>"."\<close> when nothing is kept.
\<close>

fun split_on :: "char \<Rightarrow> string \<Rightarrow> string list" where
  "split_on sep [] = [ [] ]"
| "split_on sep (c # cs) =
     (if c = sep then [] # split_on sep cs
      else (c # hd (split_on sep cs)) # tl (split_on sep cs))"

fun join_with :: "char \<Rightarrow> string list \<Rightarrow> string" where
  "join_with sep [] = []"
| "join_with sep [s] = s"
| "join_with sep (s # t # ss) = s @ sep # join_with sep (t # ss)"

definition kept_segment :: "string \<Rightarrow> bool" where
  "kept_segment seg = (seg \<noteq> [] \<and> seg \<noteq> ''.'')"

definition normalize_spec :: "string \<Rightarrow> string" where
  "normalize_spec s =
     (let kept = filter kept_segment (split_on CHR ''/'' s);
          absolute = (case s of [] \<Rightarrow> False | c # _ \<Rightarrow> c = CHR ''/'')
      in if kept = [] then (if absolute then ''/'' else ''.'')
         else (if absolute then ''/'' else []) @ join_with CHR ''/'' kept)"

section \<open>Decoding the pathnames of the proc filesystem\<close>

text \<open>
  \<^verbatim>\<open>unmangle_pathname_from_proc(first, last)\<close>. The first argument of the loop is the
  range \<^verbatim>\<open>[p, last)\<close>, the second the string \<^verbatim>\<open>result\<close> built so far. At a backslash
  (byte \<open>0x5C\<close>) the test \<^verbatim>\<open>last - p < 4\<close> asks for three more bytes behind it; the three
  increments of \<^verbatim>\<open>p\<close> read them, and the \<^verbatim>\<open>++p\<close> of the loop header leaves the escape.

  The comparisons \<^verbatim>\<open>*p < '0' || *p > '3'\<close> are on \<^verbatim>\<open>char\<close>. The order on \<^typ>\<open>char\<close>
  used here is the one of the byte values \<open>0..255\<close>; where \<^verbatim>\<open>char\<close> is signed, a byte
  from \<open>0x80\<close> on is below \<^verbatim>\<open>'0'\<close> instead of above \<^verbatim>\<open>'3'\<close>, and the disjunction has
  the same truth value. \<^verbatim>\<open>value\<close> is at most \<open>255\<close>, so the \<^verbatim>\<open>unsigned\<close> arithmetic
  cannot wrap; \<^verbatim>\<open>static_cast<unsigned char>\<close> keeps the low eight bits, as
  \<^const>\<open>char_of\<close> does.
\<close>

fun unmangle_loop :: "string \<Rightarrow> string \<Rightarrow> error + string" where
  "unmangle_loop [] result = Inr result"
| "unmangle_loop (c # cs) result =
     (if c \<noteq> CHR 0x5C then unmangle_loop cs (result @ [c])
      else if length (c # cs) < 4 then Inl (runtime ''fs-unmangle-path'')
      else
        let d1 = cs ! 0; d2 = cs ! 1; d3 = cs ! 2 in
        if d1 < CHR ''0'' \<or> d1 > CHR ''3'' then Inl (runtime ''fs-unmangle-path'')
        else
          let value = (of_char d1 - of_char CHR ''0'' :: nat) in
          if d2 < CHR ''0'' \<or> d2 > CHR ''7'' then Inl (runtime ''fs-unmangle-path'')
          else
            let value = push_bit 3 value + (of_char d2 - of_char CHR ''0'') in
            if d3 < CHR ''0'' \<or> d3 > CHR ''7'' then Inl (runtime ''fs-unmangle-path'')
            else
              let value = push_bit 3 value + (of_char d3 - of_char CHR ''0'') in
              unmangle_loop (drop 3 cs) (result @ [char_of value]))"

definition unmangle_pathname_from_proc :: "string \<Rightarrow> error + string" where
  "unmangle_pathname_from_proc s = unmangle_loop s []"

text \<open>The value of an octal digit, and the digits an escape accepts.\<close>

definition octal_value :: "char \<Rightarrow> nat" where
  "octal_value d = of_char d - 48"

definition digit_upto :: "char \<Rightarrow> char \<Rightarrow> bool" where
  "digit_upto hi d = (CHR ''0'' \<le> d \<and> d \<le> hi)"

section \<open>The mount table\<close>

text \<open>\<^verbatim>\<open>class mount\<close>: a device and the decoded path of the mount point.\<close>

record mount =
  mount_device :: "64 word"
  mount_path :: string

text \<open>
  \<^verbatim>\<open>makedev\<close> is a macro of the C library, not part of the sources. This is the encoding
  of glibc on Linux, with a \<^verbatim>\<open>dev_t\<close> of 64 bits.
\<close>

definition makedev :: "32 word \<Rightarrow> 32 word \<Rightarrow> 64 word" where
  "makedev major minor =
     push_bit 8 (ucast (major AND 0x00000FFF))
     OR push_bit 32 (ucast (major AND 0xFFFFF000))
     OR ucast (minor AND 0x000000FF)
     OR push_bit 12 (ucast (minor AND 0xFFFFFF00))"

subsection \<open>The call of \<^verbatim>\<open>sscanf\<close>\<close>

text \<open>
  \<^verbatim>\<open>sscanf(first, "%*d %*d %u:%u%n", &major, &minor, &pos)\<close> is a call into the C
  library. It is modelled here for this one format, after the C standard's description
  of \<^verbatim>\<open>fscanf\<close>: a conversion \<^verbatim>\<open>%d\<close> or \<^verbatim>\<open>%u\<close> skips white space, takes an optional
  sign and then needs at least one decimal digit; white space in the format skips any
  white space of the input, also none; the colon must be the next byte; \<^verbatim>\<open>%n\<close> stores
  the number of bytes read so far. The two \<^verbatim>\<open>%*d\<close> assign nothing and \<^verbatim>\<open>%n\<close> is not
  counted, so the returned value is 2 exactly when everything up to the second \<^verbatim>\<open>%u\<close>
  matched, and less than 2 (or \<^verbatim>\<open>EOF\<close>) otherwise; it is never 3. The model returns the
  three stored values when the returned value is 2 and \<open>None\<close> when it is not.

  A number that does not fit the type is undefined in the standard; glibc converts with
  \<^verbatim>\<open>strtoul\<close> (which stops at \<^verbatim>\<open>ULONG_MAX\<close> and negates after a minus sign) and keeps
  the low 32 bits, which is what \<open>strtoul_u32\<close> does.
\<close>

definition isspace :: "char \<Rightarrow> bool" where
  "isspace c = (c \<in> set [CHR 0x20, CHR 0x09, CHR 0x0A, CHR 0x0B, CHR 0x0C, CHR 0x0D])"

definition isdigit :: "char \<Rightarrow> bool" where
  "isdigit c = (CHR ''0'' \<le> c \<and> c \<le> CHR ''9'')"

definition scan_number :: "string \<Rightarrow> (bool \<times> string \<times> string) option" where
  "scan_number s =
     (let s1 = dropWhile isspace s;
          negative = (take 1 s1 = ''-'');
          s2 = (if take 1 s1 = ''-'' \<or> take 1 s1 = ''+'' then tl s1 else s1);
          digits = takeWhile isdigit s2
      in if digits = [] then None else Some (negative, digits, dropWhile isdigit s2))"

definition decimal :: "string \<Rightarrow> int" where
  "decimal digits = foldl (\<lambda>v d. 10 * v + (of_char d - of_char CHR ''0'')) 0 digits"

definition strtoul_u32 :: "bool \<Rightarrow> string \<Rightarrow> 32 word" where
  "strtoul_u32 negative digits =
     (let v = decimal digits;
          ul = (if v \<ge> 2 ^ 64 then - 1 else if negative then - of_int v else of_int v) :: 64 word
      in ucast ul)"

definition sscanf_mountinfo :: "string \<Rightarrow> (32 word \<times> 32 word \<times> nat) option" where
  "sscanf_mountinfo cstr =
     (case scan_number cstr of
        None \<Rightarrow> None
      | Some (_, _, r1) \<Rightarrow>
     (case scan_number (dropWhile isspace r1) of
        None \<Rightarrow> None
      | Some (_, _, r2) \<Rightarrow>
     (case scan_number (dropWhile isspace r2) of
        None \<Rightarrow> None
      | Some (neg1, digits1, r3) \<Rightarrow>
          if take 1 r3 \<noteq> '':'' then None
          else
     (case scan_number (tl r3) of
        None \<Rightarrow> None
      | Some (neg2, digits2, r4) \<Rightarrow>
          Some (strtoul_u32 neg1 digits1, strtoul_u32 neg2 digits2, length cstr - length r4)))))"

subsection \<open>\<^verbatim>\<open>parse_mountinfo\<close>\<close>

text \<open>
  The argument \<open>buf\<close> is the range \<^verbatim>\<open>[first, last)\<close>. \<^verbatim>\<open>p = std::find(first, last, '\n')\<close>
  is at offset \<open>n\<close>, the length of the prefix without a newline, and the loop runs
  while \<^verbatim>\<open>p != last\<close>, that is while a newline is there. \<^verbatim>\<open>*p = '\0'\<close> writes into the
  buffer, and \<^verbatim>\<open>sscanf\<close> reads the C string at \<^verbatim>\<open>first\<close>, which ends at the first zero
  byte. The two searches for a blank run from \<^verbatim>\<open>first + pos + 1\<close> and from \<^verbatim>\<open>r\<close> to
  \<^verbatim>\<open>last\<close>, the end of the whole buffer, as the source has it. The next round starts
  at \<^verbatim>\<open>p + 1\<close>.
\<close>

function parse_mountinfo_loop :: "string \<Rightarrow> mount list \<Rightarrow> error + mount list" where
  "parse_mountinfo_loop buf result =
     (if CHR 0x0A \<notin> set buf then Inr result
      else
        let n = length (takeWhile (\<lambda>c. c \<noteq> CHR 0x0A) buf);
            buf = buf[n := CHR 0x00]
        in case sscanf_mountinfo (takeWhile (\<lambda>c. c \<noteq> CHR 0x00) buf) of
             None \<Rightarrow> Inl (runtime ''fs-mountinfo-error'')
           | Some (major, minor, pos) \<Rightarrow>
               let from_r = dropWhile (\<lambda>c. c \<noteq> CHR 0x20) (drop (pos + 1) buf) in
               if from_r = [] then Inl (runtime ''fs-mountinfo-error'')
               else
                 let r = tl from_r in
                 if dropWhile (\<lambda>c. c \<noteq> CHR 0x20) r = [] then Inl (runtime ''fs-mountinfo-error'')
                 else
                   (case unmangle_pathname_from_proc (takeWhile (\<lambda>c. c \<noteq> CHR 0x20) r) of
                      Inl e \<Rightarrow> Inl e
                    | Inr path \<Rightarrow>
                        parse_mountinfo_loop (drop (n + 1) buf)
                          (result @ [\<lparr>mount_device = makedev major minor, mount_path = path\<rparr>])))"
  by pat_completeness auto
termination
proof (relation "measure (\<lambda>(buf, result). length buf)", goal_cases)
  case 1
  show ?case by simp
next
  case (2 buf result n buf')
  from 2(1) have "buf \<noteq> []" by auto
  then have "length buf - Suc n < length buf" by (cases buf) simp_all
  with 2(3) show ?case by simp
qed

declare parse_mountinfo_loop.simps [simp del]

definition parse_mountinfo :: "string \<Rightarrow> error + mount list" where
  "parse_mountinfo buf = parse_mountinfo_loop buf []"

text \<open>Example tables: one well-formed line, and a short line followed by a well-formed one.\<close>

definition mountinfo_line :: string where
  "mountinfo_line = ''36 35 98:0 /mnt1 /mnt2 rw,noatime master:1 - ext3 /dev/root rw'' @ [CHR 0x0A]"

definition mountinfo_short :: string where
  "mountinfo_short = ''1 2 3:4'' @ [CHR 0x0A] @ ''5 6 7:8 / /mnt rw'' @ [CHR 0x0A]"

section \<open>The open flags of a file\<close>

text \<open>
  The options of \<^verbatim>\<open>up_fs::fs::file\<close>, named as the constructor names them through
  \<^verbatim>\<open>using o = up_fs::fs::file::option\<close>.
\<close>

datatype file_option =
  o_read | o_write | o_append | o_create | o_exclusive | o_tmpfile | o_truncate
  | o_executable | o_group | o_others

text \<open>
  Modelled from the spec: the class \<^verbatim>\<open>options\<close> and its member \<^verbatim>\<open>all\<close> are declared in
  \<^verbatim>\<open>up_fs.hpp\<close>, which is not among the sources. The specification calls the argument
  an option set; \<^verbatim>\<open>options.all(a, b, ...)\<close> holds when every listed option is in it.
\<close>

type_synonym options = "file_option set"

definition options_all :: "options \<Rightarrow> file_option list \<Rightarrow> bool" where
  "options_all options wanted = (set wanted \<subseteq> options)"

text \<open>
  The constants of \<^verbatim>\<open><fcntl.h>\<close> and \<^verbatim>\<open><sys/stat.h>\<close> with the values they have on
  Linux (\<^verbatim>\<open>asm-generic/fcntl.h\<close>, octal there). \<^verbatim>\<open>O_TMPFILE\<close> is
  \<^verbatim>\<open>__O_TMPFILE | O_DIRECTORY\<close>. \<^verbatim>\<open>int\<close> and \<^verbatim>\<open>mode_t\<close> are 32 bits wide.
\<close>

definition O_RDONLY :: "32 word" where "O_RDONLY = 0"
definition O_WRONLY :: "32 word" where "O_WRONLY = 1"
definition O_RDWR :: "32 word" where "O_RDWR = 2"
definition O_ACCMODE :: "32 word" where "O_ACCMODE = 3"
definition O_CREAT :: "32 word" where "O_CREAT = 0x40"
definition O_EXCL :: "32 word" where "O_EXCL = 0x80"
definition O_TRUNC :: "32 word" where "O_TRUNC = 0x200"
definition O_APPEND :: "32 word" where "O_APPEND = 0x400"
definition O_DIRECTORY :: "32 word" where "O_DIRECTORY = 0x10000"
definition O_TMPFILE :: "32 word" where "O_TMPFILE = 0x400000 OR O_DIRECTORY"

definition S_IRUSR :: "32 word" where "S_IRUSR = 0x100"
definition S_IWUSR :: "32 word" where "S_IWUSR = 0x80"
definition S_IXUSR :: "32 word" where "S_IXUSR = 0x40"
definition S_IRGRP :: "32 word" where "S_IRGRP = 0x20"
definition S_IWGRP :: "32 word" where "S_IWGRP = 0x10"
definition S_IXGRP :: "32 word" where "S_IXGRP = 0x08"
definition S_IROTH :: "32 word" where "S_IROTH = 0x04"
definition S_IWOTH :: "32 word" where "S_IWOTH = 0x02"
definition S_IXOTH :: "32 word" where "S_IXOTH = 0x01"

text \<open>
  The constructor \<^verbatim>\<open>file::file(const path&, options)\<close> computes \<^verbatim>\<open>flags\<close> and \<^verbatim>\<open>mode\<close>
  by a sequence of conditional \<^verbatim>\<open>|=\<close> and hands both to \<^verbatim>\<open>make_handle\<close>. No branch
  of the two computations raises.
\<close>

definition file_flags :: "options \<Rightarrow> 32 word" where
  "file_flags options =
     (let flags = 0;
          flags = (if options_all options [o_read, o_write] then flags OR O_RDWR
                   else if options_all options [o_read] then flags OR O_RDONLY
                   else if options_all options [o_write] then flags OR O_WRONLY
                   else flags);
          flags = (if options_all options [o_append] then flags OR O_APPEND else flags);
          flags = (if options_all options [o_create] then flags OR O_CREAT else flags);
          flags = (if options_all options [o_exclusive] then flags OR O_EXCL else flags);
          flags = (if options_all options [o_tmpfile] then flags OR O_TMPFILE else flags);
          flags = (if options_all options [o_truncate] then flags OR O_TRUNC else flags)
      in flags)"

definition file_mode :: "options \<Rightarrow> 32 word" where
  "file_mode options =
     (let mode = S_IRUSR OR S_IWUSR;
          mode = (if options_all options [o_executable] then mode OR S_IXUSR else mode);
          mode = (if options_all options [o_group] then mode OR (S_IRGRP OR S_IWGRP) else mode);
          mode = (if options_all options [o_group, o_executable] then mode OR S_IXGRP else mode);
          mode = (if options_all options [o_others] then mode OR (S_IROTH OR S_IWOTH) else mode);
          mode = (if options_all options [o_others, o_executable] then mode OR S_IXOTH else mode)
      in mode)"

text \<open>The flag an option stands for, for the five options that add one flag each.\<close>

fun option_flag :: "file_option \<Rightarrow> 32 word" where
  "option_flag o_append = O_APPEND"
| "option_flag o_create = O_CREAT"
| "option_flag o_exclusive = O_EXCL"
| "option_flag o_tmpfile = O_TMPFILE"
| "option_flag o_truncate = O_TRUNC"
| "option_flag _ = 0"

text \<open>The two computations as functions of the membership of each option, with the
  constants written out; the proofs go through them.\<close>

definition flags_of ::
  "bool \<Rightarrow> bool \<Rightarrow> bool \<Rightarrow> bool \<Rightarrow> bool \<Rightarrow> bool \<Rightarrow> bool \<Rightarrow> 32 word" where
  "flags_of r w a c e t u =
     (if r \<and> w then 2 else if w then 1 else 0)
     OR (if a then 0x400 else 0) OR (if c then 0x40 else 0) OR (if e then 0x80 else 0)
     OR (if t then 0x410000 else 0) OR (if u then 0x200 else 0)"

definition mode_of :: "bool \<Rightarrow> bool \<Rightarrow> bool \<Rightarrow> 32 word" where
  "mode_of x g ot =
     0x180 OR (if x then 0x40 else 0) OR (if g then 0x30 else 0) OR (if g \<and> x then 0x08 else 0)
     OR (if ot then 0x06 else 0) OR (if ot \<and> x then 0x01 else 0)"

section \<open>Scanning a directory\<close>

text \<open>The kinds of \<^verbatim>\<open>up_fs::fs::kind\<close>, in the order of \<^verbatim>\<open>to_string\<close>.\<close>

datatype kind =
  block_device | character_device | directory | named_pipe | symbolic_link
  | regular_file | socket | unknown

text \<open>The type codes of \<^verbatim>\<open><dirent.h>\<close>; \<^verbatim>\<open>d_type\<close> is an \<^verbatim>\<open>unsigned char\<close>.\<close>

definition DT_UNKNOWN :: "8 word" where "DT_UNKNOWN = 0"
definition DT_FIFO :: "8 word" where "DT_FIFO = 1"
definition DT_CHR :: "8 word" where "DT_CHR = 2"
definition DT_DIR :: "8 word" where "DT_DIR = 4"
definition DT_BLK :: "8 word" where "DT_BLK = 6"
definition DT_REG :: "8 word" where "DT_REG = 8"
definition DT_LNK :: "8 word" where "DT_LNK = 10"
definition DT_SOCK :: "8 word" where "DT_SOCK = 12"

definition map_dirent_type_to_kind :: "8 word \<Rightarrow> error + kind" where
  "map_dirent_type_to_kind t =
     (if t = DT_BLK then Inr block_device
      else if t = DT_CHR then Inr character_device
      else if t = DT_DIR then Inr directory
      else if t = DT_FIFO then Inr named_pipe
      else if t = DT_LNK then Inr symbolic_link
      else if t = DT_REG then Inr regular_file
      else if t = DT_SOCK then Inr socket
      else if t = DT_UNKNOWN then Inr unknown
      else Inl (runtime ''fs-bad-type-error''))"

text \<open>
  The fields of \<^verbatim>\<open>struct dirent\<close> that the scan reads, and the entry it builds with
  \<^verbatim>\<open>directory_entry(de->d_ino, de->d_name, kind)\<close>.
\<close>

record dirent =
  d_ino :: "64 word"
  d_name :: string
  d_type :: "8 word"

record directory_entry =
  entry_inode :: "64 word"
  entry_name :: string
  entry_type :: kind

text \<open>
  An open directory stream is what the successive calls of \<^verbatim>\<open>::readdir_r\<close> will answer:
  the returned error number and the entry, \<open>None\<close> for the null pointer that marks the
  end. A stream that has no answer left is at its end.

  The loop of \<^verbatim>\<open>scan_directory(handle&&, Visitor&&)\<close>. The visitor is a callable with
  captured variables: it takes the entry and its state and returns its verdict and its
  new state. The loop returns what the function returns or raises, the state of the
  visitor, and the answers that were never asked for.
\<close>

type_synonym dir_stream = "(int \<times> dirent option) list"

fun scan_loop ::
  "(directory_entry \<Rightarrow> 's \<Rightarrow> bool \<times> 's) \<Rightarrow> dir_stream \<Rightarrow> 's \<Rightarrow> (error + bool) \<times> 's \<times> dir_stream" where
  "scan_loop visitor [] st = (Inr False, st, [])"
| "scan_loop visitor ((rv, de) # rest) st =
     (if rv \<noteq> 0 then (Inl (runtime ''fs-readdir-error''), st, rest)
      else case de of
        None \<Rightarrow> (Inr False, st, rest)
      | Some d \<Rightarrow>
          if d_name d = ''.'' \<or> d_name d = ''..'' then scan_loop visitor rest st
          else
            (case map_dirent_type_to_kind (d_type d) of
               Inl e \<Rightarrow> (Inl e, st, rest)
             | Inr kind \<Rightarrow>
                 (case visitor \<lparr>entry_inode = d_ino d, entry_name = d_name d, entry_type = kind\<rparr> st of
                    (stop, st') \<Rightarrow>
                      if stop then (Inr True, st', rest) else scan_loop visitor rest st')))"

text \<open>
  \<^verbatim>\<open>scan_directory\<close> with a visitor: \<^verbatim>\<open>::fdopendir\<close> gives the stream or the null
  pointer, for which the function raises.
\<close>

definition scan_directory ::
  "dir_stream option \<Rightarrow> (directory_entry \<Rightarrow> 's \<Rightarrow> bool \<times> 's) \<Rightarrow> 's \<Rightarrow> (error + bool) \<times> 's \<times> dir_stream" where
  "scan_directory dirp visitor st =
     (case dirp of
        None \<Rightarrow> (Inl (runtime ''fs-opendir-error''), st, [])
      | Some answers \<Rightarrow> scan_loop visitor answers st)"

text \<open>
  \<^verbatim>\<open>scan_directory(handle&&)\<close>, the collecting form: its visitor appends the entry to the
  captured vector and returns \<^verbatim>\<open>false\<close>.
\<close>

definition collect_entry :: "directory_entry \<Rightarrow> directory_entry list \<Rightarrow> bool \<times> directory_entry list" where
  "collect_entry entry result = (False, result @ [entry])"

definition scan_directory_all :: "dir_stream option \<Rightarrow> error + directory_entry list" where
  "scan_directory_all dirp =
     (case scan_directory dirp collect_entry [] of
        (Inl e, _, _) \<Rightarrow> Inl e
      | (Inr _, result, _) \<Rightarrow> Inr result)"

subsection \<open>Notions for stating what a scan does\<close>

definition dot_name :: "string \<Rightarrow> bool" where
  "dot_name n = (n = ''.'' \<or> n = ''..'')"

definition known_type :: "8 word \<Rightarrow> bool" where
  "known_type t =
     (t \<in> set [DT_BLK, DT_CHR, DT_DIR, DT_FIFO, DT_LNK, DT_REG, DT_SOCK, DT_UNKNOWN])"

text \<open>The entry that the scan builds from a \<^verbatim>\<open>dirent\<close> whose type maps to \<open>k\<close>.\<close>

definition entry_of :: "dirent \<Rightarrow> kind \<Rightarrow> directory_entry" where
  "entry_of d k = \<lparr>entry_inode = d_ino d, entry_name = d_name d, entry_type = k\<rparr>"

text \<open>
  A visitor that keeps a record beside its own state: each entry it is given, with the
  verdict it returned.
\<close>

definition logging ::
  "(directory_entry \<Rightarrow> 's \<Rightarrow> bool \<times> 's)
   \<Rightarrow> directory_entry \<Rightarrow> (directory_entry \<times> bool) list \<times> 's
   \<Rightarrow> bool \<times> (directory_entry \<times> bool) list \<times> 's" where
  "logging visitor entry ls =
     (case visitor entry (snd ls) of (stop, st') \<Rightarrow> (stop, fst ls @ [(entry, stop)], st'))"

text \<open>
  The calls of the visitor during a scan, as the code makes them: each entry handed to it
  with the verdict it gave. The proofs relate the record of a logging visitor to it.
\<close>

fun visits ::
  "(directory_entry \<Rightarrow> 's \<Rightarrow> bool \<times> 's) \<Rightarrow> dir_stream \<Rightarrow> 's \<Rightarrow> (directory_entry \<times> bool) list" where
  "visits visitor [] st = []"
| "visits visitor ((rv, de) # rest) st =
     (if rv \<noteq> 0 then []
      else case de of
        None \<Rightarrow> []
      | Some d \<Rightarrow>
          if d_name d = ''.'' \<or> d_name d = ''..'' then visits visitor rest st
          else
            (case map_dirent_type_to_kind (d_type d) of
               Inl e \<Rightarrow> []
             | Inr kind \<Rightarrow>
                 (case visitor \<lparr>entry_inode = d_ino d, entry_name = d_name d, entry_type = kind\<rparr> st of
                    (stop, st') \<Rightarrow>
                      (\<lparr>entry_inode = d_ino d, entry_name = d_name d, entry_type = kind\<rparr>, stop)
                        # (if stop then [] else visits visitor rest st'))))"

text \<open>
  Where a scan ended. \<open>stopped_at\<close>: the last answer read is an entry with a known type,
  and it is the entry of the last call of the visitor. \<open>raised_at\<close>: the last answer read
  is an entry that is not a dot entry and has no known type.
\<close>

definition stopped_at :: "dir_stream \<Rightarrow> (directory_entry \<times> bool) list \<Rightarrow> bool" where
  "stopped_at consumed calls =
     (consumed \<noteq> [] \<and> calls \<noteq> [] \<and>
      (case last consumed of
         (rv, Some d) \<Rightarrow>
           rv = 0 \<and>
           (case map_dirent_type_to_kind (d_type d) of
              Inr k \<Rightarrow> fst (last calls) = entry_of d k
            | Inl _ \<Rightarrow> False)
       | (rv, None) \<Rightarrow> False))"

definition raised_at :: "dir_stream \<Rightarrow> bool" where
  "raised_at consumed =
     (consumed \<noteq> [] \<and>
      (case last consumed of
         (rv, Some d) \<Rightarrow> rv = 0 \<and> \<not> dot_name (d_name d) \<and> \<not> known_type (d_type d)
       | (rv, None) \<Rightarrow> False))"

text \<open>
  A stream on which no read fails and no end marker comes before the end of the list,
  and the entries that a full scan of it lists: those of the answers that are not dot
  entries, with their type mapped.
\<close>

definition clean :: "dir_stream \<Rightarrow> bool" where
  "clean answers = list_all (\<lambda>a. fst a = 0 \<and> snd a \<noteq> None) answers"

definition listed :: "dir_stream \<Rightarrow> directory_entry list" where
  "listed answers =
     concat (map (\<lambda>a. case snd a of
                    Some d \<Rightarrow>
                      if dot_name (d_name d) then []
                      else (case map_dirent_type_to_kind (d_type d) of
                              Inr k \<Rightarrow> [entry_of d k]
                            | Inl _ \<Rightarrow> [])
                  | None \<Rightarrow> []) answers)"

text \<open>Example data: a directory with the two dot entries, a file, a directory, a whiteout.\<close>

definition example_stream :: dir_stream where
  "example_stream =
     [(0, Some \<lparr>d_ino = 2, d_name = ''.'', d_type = DT_DIR\<rparr>),
      (0, Some \<lparr>d_ino = 1, d_name = ''..'', d_type = DT_DIR\<rparr>),
      (0, Some \<lparr>d_ino = 7, d_name = ''notes'', d_type = DT_REG\<rparr>),
      (0, Some \<lparr>d_ino = 9, d_name = ''sub'', d_type = DT_DIR\<rparr>),
      (0, Some \<lparr>d_ino = 11, d_name = ''gone'', d_type = 14\<rparr>)]"

definition stop_at_directory :: "directory_entry \<Rightarrow> nat \<Rightarrow> bool \<times> nat" where
  "stop_at_directory entry n = (entry_type entry = directory, Suc n)"

section \<open>Advisory locks\<close>

definition LOCK_UN :: "32 word" where "LOCK_UN = 8"








section \<open>Contexts, origins and paths\<close>

text \<open>
  Further constants of the Linux headers: \<^verbatim>\<open>AT_FDCWD\<close>, open flags, error numbers.
\<close>

definition AT_FDCWD :: int where "AT_FDCWD = - 100"
definition O_NOCTTY :: "32 word" where "O_NOCTTY = 0x100"
definition O_NONBLOCK :: "32 word" where "O_NONBLOCK = 0x800"
definition O_NOFOLLOW :: "32 word" where "O_NOFOLLOW = 0x20000"
definition O_NOATIME :: "32 word" where "O_NOATIME = 0x40000"
definition O_CLOEXEC :: "32 word" where "O_CLOEXEC = 0x80000"
definition O_PATH :: "32 word" where "O_PATH = 0x200000"
definition EPERM :: int where "EPERM = 1"
definition ERANGE :: int where "ERANGE = 34"

text \<open>
  The state of \<^verbatim>\<open>context::impl\<close>, \<^verbatim>\<open>origin::impl\<close> and \<^verbatim>\<open>path::impl\<close>. The shared
  pointers of the source point to constant objects, so the objects themselves stand for
  them. The handle of an origin is its descriptor, \<open>-1\<close> when it has none
  (\<^verbatim>\<open>handle::get_or\<close> then gives the alternative).
\<close>

record context_impl =
  context_name :: string
  additional_open_flags :: "32 word"
  avoid_access_time :: bool

record origin_impl =
  origin_context :: context_impl
  origin_handle :: int

record path_impl =
  path_origin :: origin_impl
  path_pathname :: string
  path_follow :: bool

definition get_or :: "int \<Rightarrow> int \<Rightarrow> int" where
  "get_or fd alternate = (if fd = - 1 then alternate else fd)"

definition dir_fd :: "origin_impl \<Rightarrow> int" where
  "dir_fd origin = get_or (origin_handle origin) AT_FDCWD"

text \<open>\<^verbatim>\<open>origin::impl::working()\<close>: a new origin of the same context without a handle.\<close>

definition origin_working :: "origin_impl \<Rightarrow> origin_impl" where
  "origin_working origin = \<lparr>origin_context = origin_context origin, origin_handle = - 1\<rparr>"

text \<open>
  \<^verbatim>\<open>path::impl::joined(pathname)\<close> builds a new object and leaves its own fields as
  they are (the member function is \<^verbatim>\<open>const\<close>).
\<close>

definition path_joined :: "path_impl \<Rightarrow> string \<Rightarrow> path_impl" where
  "path_joined p pathname =
     (if take 1 pathname = ''/''
      then \<lparr>path_origin = origin_working (path_origin p), path_pathname = pathname,
            path_follow = path_follow p\<rparr>
      else \<lparr>path_origin = path_origin p,
            path_pathname = pathname_normalize (path_pathname p @ [CHR ''/''] @ pathname),
            path_follow = path_follow p\<rparr>)"

subsection \<open>The operating system\<close>

text \<open>
  What the system calls of \<^verbatim>\<open>origin::impl::location\<close> answer, as functions of their
  arguments: a snapshot of the file system.
  \<^item> \<open>os_getcwd size\<close>: \<^verbatim>\<open>::getcwd\<close> with a buffer of that size gives the working
    directory or fails with an error number.
  \<^item> \<open>os_fstat fd\<close>: device and inode of an open descriptor, \<open>None\<close> when \<^verbatim>\<open>::fstat\<close>
    returns \<open>-1\<close>.
  \<^item> \<open>os_fstatat name\<close>: the inode that
    \<^verbatim>\<open>::fstatat(AT_FDCWD, name, &st, AT_SYMLINK_NOFOLLOW)\<close> reports, or \<open>None\<close>.
  \<^item> \<open>os_mountinfo\<close>: what \<^verbatim>\<open>find_mounts\<close> hands to \<^verbatim>\<open>parse_mountinfo\<close>, the
    bytes of \<^verbatim>\<open>/proc/self/mountinfo\<close> read to the end through a \<^verbatim>\<open>file\<close>, or the
    exception that opening or reading raised.
  \<^item> \<open>os_openat dir name flags\<close>: the returned value of \<^verbatim>\<open>::openat\<close> and the
    \<^verbatim>\<open>errno\<close> it leaves.
  \<^item> \<open>os_fdopendir fd\<close>: the stream that \<^verbatim>\<open>::fdopendir\<close> opens, \<open>None\<close> for the
    null pointer.
\<close>

record world =
  os_getcwd :: "nat \<Rightarrow> int + string"
  os_fstat :: "int \<Rightarrow> (64 word \<times> 64 word) option"
  os_fstatat :: "string \<Rightarrow> 64 word option"
  os_mountinfo :: "error + string"
  os_openat :: "int \<Rightarrow> string \<Rightarrow> 32 word \<Rightarrow> int \<times> int"
  os_fdopendir :: "int \<Rightarrow> dir_stream option"

text \<open>
  The file's \<^verbatim>\<open>getcwd()\<close>: buffers of \<^verbatim>\<open>1 << i\<close> bytes for \<open>i\<close> from 8 to 16; any
  failure but \<^verbatim>\<open>ERANGE\<close> raises at once, and so does the end of the loop.
\<close>

fun getcwd_loop :: "(nat \<Rightarrow> int + string) \<Rightarrow> nat list \<Rightarrow> error + string" where
  "getcwd_loop sys [] = Inl (runtime ''fs-getcwd-error'')"
| "getcwd_loop sys (i # rest) =
     (case sys (2 ^ i) of
        Inr cwd \<Rightarrow> Inr cwd
      | Inl errno \<Rightarrow>
          if errno \<noteq> ERANGE then Inl (runtime ''fs-getcwd-error'') else getcwd_loop sys rest)"

definition getcwd :: "(nat \<Rightarrow> int + string) \<Rightarrow> error + string" where
  "getcwd sys = getcwd_loop sys [8 ..< 17]"

text \<open>
  \<^verbatim>\<open>context::impl::openat\<close>: the flags of the context are added; with access-time
  suppression configured and not asked for, a first attempt adds \<^verbatim>\<open>O_NOATIME\<close>, and only
  \<^verbatim>\<open>EPERM\<close> leads to the second attempt without it.
\<close>

definition context_openat ::
  "world \<Rightarrow> context_impl \<Rightarrow> int \<Rightarrow> string \<Rightarrow> 32 word \<Rightarrow> error + int" where
  "context_openat w ctx dir pathname flags =
     (let flags = flags OR additional_open_flags ctx in
      if avoid_access_time ctx \<and> flags AND O_NOATIME = 0 then
        (case os_openat w dir pathname (flags OR O_NOATIME) of
           (rv, errno) \<Rightarrow>
             if rv \<ge> 0 then Inr rv
             else if errno \<noteq> EPERM then check rv ''fs-open-error''
             else check (fst (os_openat w dir pathname flags)) ''fs-open-error'')
      else check (fst (os_openat w dir pathname flags)) ''fs-open-error'')"

text \<open>The lambda \<^verbatim>\<open>inode\<close> of \<^verbatim>\<open>location\<close>: device and inode of a descriptor.\<close>

definition inode :: "world \<Rightarrow> int \<Rightarrow> error + (64 word \<times> 64 word)" where
  "inode w fd = (case os_fstat w fd of None \<Rightarrow> Inl (runtime ''fs-stat-error'') | Some st \<Rightarrow> Inr st)"

definition find_mounts :: "world \<Rightarrow> error + mount list" where
  "find_mounts w =
     (case os_mountinfo w of Inl e \<Rightarrow> Inl e | Inr content \<Rightarrow> parse_mountinfo content)"

text \<open>\<^verbatim>\<open>std::string::c_str()\<close> as a system call reads it: up to the first zero byte.\<close>

definition c_str :: "string \<Rightarrow> string" where
  "c_str s = takeWhile (\<lambda>c. c \<noteq> CHR 0x00) s"

text \<open>
  The first loop of \<^verbatim>\<open>location\<close>: for every mount of the device, in the order of the
  table, the inode of the mount point and its path are appended to \<^verbatim>\<open>roots\<close>.
\<close>

type_synonym root = "64 word \<times> string"

fun find_roots :: "world \<Rightarrow> 64 word \<Rightarrow> mount list \<Rightarrow> root list \<Rightarrow> error + root list" where
  "find_roots w device [] roots = Inr roots"
| "find_roots w device (m # ms) roots =
     (if mount_device m = device then
        (case os_fstatat w (c_str (mount_path m)) of
           None \<Rightarrow> Inl (runtime ''fs-stat-error'')
         | Some ino \<Rightarrow> find_roots w device ms (roots @ [(ino, mount_path m)]))
      else find_roots w device ms roots)"

text \<open>
  The comparison of the call of \<^verbatim>\<open>std::sort\<close> is \<^verbatim>\<open><\<close> on the tuples
  \<^verbatim>\<open>(first, second.size(), second)\<close>: lexicographic, on unsigned inode numbers, on
  lengths, and on strings byte by byte as \<^verbatim>\<open>std::string\<close> compares them. That is the
  order of \<open>root_key\<close>. \<^verbatim>\<open>std::sort\<close> belongs to the C++ library; it is modelled by
  \<^const>\<open>sort_key\<close>, and \<open>sort_roots_unique\<close> below shows that no other result is sorted.
\<close>

definition root_key :: "root \<Rightarrow> 64 word \<times> nat \<times> string" where
  "root_key r = (fst r, length (snd r), snd r)"

definition sort_roots :: "root list \<Rightarrow> root list" where
  "sort_roots roots = sort_key root_key roots"

text \<open>
  \<^verbatim>\<open>std::partition_point\<close> belongs to the C++ library as well. This is its binary search
  as libstdc++ writes it: the range is \<open>len\<close> elements from index \<open>first\<close> on.
\<close>

function partition_point :: "('a \<Rightarrow> bool) \<Rightarrow> 'a list \<Rightarrow> nat \<Rightarrow> nat \<Rightarrow> nat" where
  "partition_point pred xs first len =
     (if len = 0 then first
      else
        let half = len div 2; middle = first + half in
        if pred (xs ! middle) then partition_point pred xs (middle + 1) (len - half - 1)
        else partition_point pred xs first half)"
  by pat_completeness auto
termination
  by (relation "measure (\<lambda>(pred, xs, first, len). len)") auto

declare partition_point.simps [simp del]

text \<open>
  The visitor of the walk: it takes the first entry that is a directory with the wanted
  inode, and pushes its name.
\<close>

definition find_name :: "64 word \<Rightarrow> directory_entry \<Rightarrow> string list \<Rightarrow> bool \<times> string list" where
  "find_name ino entry names =
     (if entry_type entry \<noteq> directory then (False, names)
      else if entry_inode entry \<noteq> ino then (False, names)
      else (True, names @ [entry_name entry]))"

definition walk_flags :: "32 word" where
  "walk_flags = O_RDONLY OR O_DIRECTORY OR O_NOFOLLOW OR O_PATH"

text \<open>
  The \<^verbatim>\<open>while\<close> loop of \<^verbatim>\<open>location\<close>, one round for each unit of fuel; \<open>None\<close> says that
  the fuel did not suffice. The names are appended to the result from the back of the
  vector.
\<close>

fun walk ::
  "nat \<Rightarrow> world \<Rightarrow> context_impl \<Rightarrow> root list \<Rightarrow> 64 word \<times> 64 word \<Rightarrow> int \<Rightarrow> 64 word \<times> 64 word
   \<Rightarrow> string list \<Rightarrow> (error + string) option" where
  "walk fuel w ctx roots previous current next names =
     (if \<not> (fst previous = fst next \<and> snd previous \<noteq> snd next)
        then Some (Inl (runtime ''fs-resolve-error''))
      else case fuel of
        0 \<Rightarrow> None
      | Suc fuel' \<Rightarrow>
     (case context_openat w ctx current ''..'' walk_flags of
        Inl e \<Rightarrow> Some (Inl e)
      | Inr parent \<Rightarrow>
     (case scan_directory (os_fdopendir w current) (find_name (snd previous)) names of
        (Inl e, _, _) \<Rightarrow> Some (Inl e)
      | (Inr found, names, _) \<Rightarrow>
          if \<not> found then Some (Inl (runtime ''fs-resolve-error''))
          else
            let q = partition_point (\<lambda>r. fst r < snd next) roots 0 (length roots) in
            if q \<noteq> length roots \<and> fst (roots ! q) = snd next
              then Some (Inr (pathname_normalize
                     (foldl (\<lambda>result name. result @ [CHR ''/''] @ name) (snd (roots ! q)) (rev names))))
            else
              (case inode w parent of
                 Inl e \<Rightarrow> Some (Inl e)
               | Inr previous' \<Rightarrow> walk fuel' w ctx roots next parent previous' names))))"

declare walk.simps [simp del]

text \<open>\<^verbatim>\<open>origin::impl::location()\<close>.\<close>

definition location :: "world \<Rightarrow> origin_impl \<Rightarrow> nat \<Rightarrow> (error + string) option" where
  "location w origin fuel =
     (if dir_fd origin = AT_FDCWD then Some (getcwd (os_getcwd w))
      else
     (case inode w (dir_fd origin) of
        Inl e \<Rightarrow> Some (Inl e)
      | Inr previous \<Rightarrow>
     (case find_mounts w of
        Inl e \<Rightarrow> Some (Inl e)
      | Inr mounts \<Rightarrow>
     (case find_roots w (fst previous) mounts [] of
        Inl e \<Rightarrow> Some (Inl e)
      | Inr roots \<Rightarrow>
          let roots = sort_roots roots;
              p = partition_point (\<lambda>r. fst r < snd previous) roots 0 (length roots)
          in if p \<noteq> length roots \<and> fst (roots ! p) = snd previous
               then Some (Inr (pathname_normalize (snd (roots ! p))))
             else
               (case context_openat w (origin_context origin) (dir_fd origin) ''..'' walk_flags of
                  Inl e \<Rightarrow> Some (Inl e)
                | Inr current \<Rightarrow>
                    (case inode w current of
                       Inl e \<Rightarrow> Some (Inl e)
                     | Inr next \<Rightarrow>
                         walk fuel w (origin_context origin) roots previous current next []))))))"

text \<open>The root at the lower bound of the inode, in the sorted list.\<close>

definition lower_root :: "root list \<Rightarrow> 64 word \<Rightarrow> root" where
  "lower_root roots ino =
     sort_roots roots ! partition_point (\<lambda>r. fst r < ino) (sort_roots roots) 0 (length roots)"

subsection \<open>An example system\<close>

text \<open>
  Device 8:1 is mounted at \<^verbatim>\<open>/mnt/data\<close> and at \<^verbatim>\<open>/data\<close> (both show the root of the
  file system, inode 2), device 8:2 at \<^verbatim>\<open>/\<close>. Descriptor 5 is the root directory of
  device 8:1, descriptor 6 the directory with inode 77 on it. No \<^verbatim>\<open>openat\<close> succeeds.
\<close>

definition example_mountinfo :: string where
  "example_mountinfo =
     ''21 1 8:2 / / rw - ext4 /dev/sda2 rw'' @ [CHR 0x0A]
     @ ''36 21 8:1 / /mnt/data rw - ext4 /dev/sda1 rw'' @ [CHR 0x0A]
     @ ''37 21 8:1 / /data rw - ext4 /dev/sda1 rw'' @ [CHR 0x0A]"

definition example_context :: context_impl where
  "example_context =
     \<lparr>context_name = ''root'', additional_open_flags = O_CLOEXEC OR O_NOCTTY OR O_NONBLOCK,
      avoid_access_time = False\<rparr>"

definition example_world :: world where
  "example_world =
     \<lparr>os_getcwd = (\<lambda>size. if size < 512 then Inl ERANGE else Inr ''/home/u''),
      os_fstat = (\<lambda>fd. if fd = 5 then Some (makedev 8 1, 2)
                        else if fd = 6 then Some (makedev 8 1, 77) else None),
      os_fstatat = (\<lambda>name. if name = ''/'' then Some 2
                            else if name = ''/mnt/data'' then Some 2
                            else if name = ''/data'' then Some 2 else None),
      os_mountinfo = Inr example_mountinfo,
      os_openat = (\<lambda>dir name flags. (- 1, 13)),
      os_fdopendir = (\<lambda>fd. None)\<rparr>"

definition example_origin :: "int \<Rightarrow> origin_impl" where
  "example_origin fd = \<lparr>origin_context = example_context, origin_handle = fd\<rparr>"

definition example_path :: path_impl where
  "example_path = \<lparr>path_origin = example_origin 5, path_pathname = ''a'', path_follow = True\<rparr>"

definition example_mounts :: "mount list" where
  "example_mounts =
     [\<lparr>mount_device = makedev 8 2, mount_path = ''/''\<rparr>,
      \<lparr>mount_device = makedev 8 1, mount_path = ''/mnt/data''\<rparr>,
      \<lparr>mount_device = makedev 8 1, mount_path = ''/data''\<rparr>]"

definition example_roots :: "root list" where
  "example_roots = [(2, ''/mnt/data''), (2, ''/data'')]"

text \<open>
  A second system: device 8:1 is mounted at \<^verbatim>\<open>/mnt/a\<close> and at \<^verbatim>\<open>/srv\<close>. The longer
  path comes first in the table and first in the order of the texts, the shorter one
  first in the order of the lengths.
\<close>

definition bind_mountinfo :: string where
  "bind_mountinfo =
     ''21 1 8:2 / / rw - ext4 /dev/sda2 rw'' @ [CHR 0x0A]
     @ ''36 21 8:1 / /mnt/a rw - ext4 /dev/sda1 rw'' @ [CHR 0x0A]
     @ ''37 21 8:1 / /srv rw - ext4 /dev/sda1 rw'' @ [CHR 0x0A]"

definition bind_world :: world where
  "bind_world =
     example_world
       \<lparr>os_fstatat := (\<lambda>name. if name = ''/'' \<or> name = ''/mnt/a'' \<or> name = ''/srv''
                                then Some 2 else None),
        os_mountinfo := Inr bind_mountinfo\<rparr>"

definition bind_mounts :: "mount list" where
  "bind_mounts =
     [\<lparr>mount_device = makedev 8 2, mount_path = ''/''\<rparr>,
      \<lparr>mount_device = makedev 8 1, mount_path = ''/mnt/a''\<rparr>,
      \<lparr>mount_device = makedev 8 1, mount_path = ''/srv''\<rparr>]"

definition bind_roots :: "root list" where
  "bind_roots = [(2, ''/mnt/a''), (2, ''/srv'')]"

section \<open>Handles\<close>

text \<open>
  A \<^verbatim>\<open>handle\<close> object holds one \<^verbatim>\<open>int _fd\<close>, \<open>-1\<close> when it is empty. The class has no
  copy constructor and no copy assignment (both are deleted), so the operations on
  handle objects are the ones below. The objects that are alive are kept in a list of
  pairs of an object and its \<^verbatim>\<open>_fd\<close>, each object once.
\<close>

datatype handle_op =
  Construct_empty nat     \<comment> \<open>\<^verbatim>\<open>handle()\<close>\<close>
  | Construct nat int     \<comment> \<open>\<^verbatim>\<open>handle(int fd)\<close>\<close>
  | Move_construct nat nat  \<comment> \<open>\<^verbatim>\<open>handle(self&& rhs)\<close>: the new object, then \<^verbatim>\<open>rhs\<close>\<close>
  | Destroy nat           \<comment> \<open>\<^verbatim>\<open>~handle()\<close>\<close>
  | Move_assign nat nat   \<comment> \<open>\<^verbatim>\<open>operator=(self&& rhs)\<close>: the target, then \<^verbatim>\<open>rhs\<close>\<close>
  | Swap nat nat          \<comment> \<open>\<^verbatim>\<open>swap(self& rhs)\<close>\<close>
  | Release nat           \<comment> \<open>\<^verbatim>\<open>release()\<close>\<close>

text \<open>
  The state of a program that uses handles: the live objects; the descriptors given to
  \<^verbatim>\<open>::close\<close>, in order; whether \<^verbatim>\<open>UP_TERMINATE\<close> has ended the process. Two further
  lists only observe: the descriptors given to \<^verbatim>\<open>handle(int fd)\<close> and the descriptors
  that \<^verbatim>\<open>release()\<close> returned, \<open>-1\<close> left out in both.
\<close>

record handle_state =
  objects :: "(nat \<times> int) list"
  closed :: "int list"
  terminated :: bool
  placed :: "int list"
  released :: "int list"

definition initial_state :: handle_state where
  "initial_state = \<lparr>objects = [], closed = [], terminated = False, placed = [], released = []\<rparr>"

fun put_fd :: "nat \<Rightarrow> int \<Rightarrow> (nat \<times> int) list \<Rightarrow> (nat \<times> int) list" where
  "put_fd h v [] = [(h, v)]"
| "put_fd h v ((k, x) # rest) = (if k = h then (h, v) # rest else (k, x) # put_fd h v rest)"

definition drop_object :: "nat \<Rightarrow> (nat \<times> int) list \<Rightarrow> (nat \<times> int) list" where
  "drop_object h objs = filter (\<lambda>kv. fst kv \<noteq> h) objs"

definition observe :: "int \<Rightarrow> int list \<Rightarrow> int list" where
  "observe fd fds = (if fd = - 1 then fds else fds @ [fd])"

text \<open>
  \<^verbatim>\<open>handle::close()\<close>: an empty handle does nothing; otherwise \<^verbatim>\<open>_fd\<close> becomes \<open>-1\<close>,
  the old value goes to \<^verbatim>\<open>::close\<close>, and a return value other than 0 terminates the
  process. \<open>sys_close\<close> is what \<^verbatim>\<open>::close\<close> returns for a descriptor.
\<close>

definition handle_close :: "(int \<Rightarrow> int) \<Rightarrow> nat \<Rightarrow> handle_state \<Rightarrow> handle_state" where
  "handle_close sys_close h s =
     (case map_of (objects s) h of
        None \<Rightarrow> s
      | Some fd \<Rightarrow>
          if fd \<noteq> - 1 then
            let temp = fd;
                s = s\<lparr>objects := put_fd h (- 1) (objects s), closed := closed s @ [temp]\<rparr>
            in if sys_close temp \<noteq> 0 then s\<lparr>terminated := True\<rparr> else s
          else s)"

definition handle_swap :: "nat \<Rightarrow> nat \<Rightarrow> handle_state \<Rightarrow> handle_state" where
  "handle_swap h rhs s =
     (case (map_of (objects s) h, map_of (objects s) rhs) of
        (Some a, Some b) \<Rightarrow> s\<lparr>objects := put_fd rhs a (put_fd h b (objects s))\<rparr>
      | _ \<Rightarrow> s)"

text \<open>
  One operation. \<open>None\<close> is a program that C++ does not define: an operation on an
  object that is not alive, or the construction of an object that is. After
  \<^verbatim>\<open>UP_TERMINATE\<close> there is no process, and nothing changes any more.
\<close>

definition alive :: "handle_state \<Rightarrow> nat \<Rightarrow> bool" where
  "alive s h = (map_of (objects s) h \<noteq> None)"

fun step :: "(int \<Rightarrow> int) \<Rightarrow> handle_op \<Rightarrow> handle_state \<Rightarrow> handle_state option" where
  "step sys_close (Construct_empty h) s =
     (if terminated s then Some s
      else if alive s h then None
      else Some (s\<lparr>objects := put_fd h (- 1) (objects s)\<rparr>))"
| "step sys_close (Construct h fd) s =
     (if terminated s then Some s
      else if alive s h then None
      else Some (s\<lparr>objects := put_fd h fd (objects s), placed := observe fd (placed s)\<rparr>))"
| "step sys_close (Move_construct h rhs) s =
     (if terminated s then Some s
      else if alive s h \<or> \<not> alive s rhs then None
      else Some (s\<lparr>objects := put_fd rhs (- 1) (put_fd h (the (map_of (objects s) rhs)) (objects s))\<rparr>))"
| "step sys_close (Destroy h) s =
     (if terminated s then Some s
      else if \<not> alive s h then None
      else
        let s = handle_close sys_close h s
        in Some (s\<lparr>objects := drop_object h (objects s)\<rparr>))"
| "step sys_close (Move_assign h rhs) s =
     (if terminated s then Some s
      else if \<not> alive s h \<or> \<not> alive s rhs then None
      else Some (handle_close sys_close rhs (handle_swap h rhs s)))"
| "step sys_close (Swap h rhs) s =
     (if terminated s then Some s
      else if \<not> alive s h \<or> \<not> alive s rhs then None
      else Some (handle_swap h rhs s))"
| "step sys_close (Release h) s =
     (if terminated s then Some s
      else if \<not> alive s h then None
      else Some (s\<lparr>objects := put_fd h (- 1) (objects s),
                   released := observe (the (map_of (objects s) h)) (released s)\<rparr>))"

fun run :: "(int \<Rightarrow> int) \<Rightarrow> handle_op list \<Rightarrow> handle_state \<Rightarrow> handle_state option" where
  "run sys_close [] s = Some s"
| "run sys_close (op # ops) s =
     (case step sys_close op s of None \<Rightarrow> None | Some s' \<Rightarrow> run sys_close ops s')"

text \<open>The descriptors that the live objects own.\<close>

definition owned :: "(nat \<times> int) list \<Rightarrow> int multiset" where
  "owned objs = mset (filter (\<lambda>fd. fd \<noteq> - 1) (map snd objs))"

text \<open>
  The invariant: every object is listed once, and every descriptor given to a handle has
  been closed, or released, or is owned by a live object, as often as it was given.
\<close>

definition accounted :: "handle_state \<Rightarrow> bool" where
  "accounted s =
     (distinct (map fst (objects s))
      \<and> mset (placed s) = mset (closed s) + mset (released s) + owned (objects s))"

text \<open>An example program: descriptors 3, 4 and 5 go through all seven operations.\<close>

definition example_program :: "handle_op list" where
  "example_program =
     [Construct 0 3, Construct 1 4, Construct_empty 2, Move_construct 3 0,
      Swap 2 3, Move_assign 1 2, Construct 4 5, Release 4, Move_assign 1 1,
      Destroy 0, Destroy 1, Destroy 2, Destroy 3, Destroy 4]"

section \<open>Verified properties\<close>

lemma split_on_nonempty: "split_on sep s \<noteq> []"
  by (induction s) auto

lemma hd_split_on: "hd (split_on sep s) = takeWhile (\<lambda>c. c \<noteq> sep) s"
  by (induction s) simp_all

lemma tl_split_on:
  "tl (split_on sep s) =
     (if dropWhile (\<lambda>c. c \<noteq> sep) s = [] then []
      else split_on sep (tl (dropWhile (\<lambda>c. c \<noteq> sep) s)))"
  by (induction s) auto

lemma split_on_unfold:
  "split_on sep s =
     takeWhile (\<lambda>c. c \<noteq> sep) s #
       (if dropWhile (\<lambda>c. c \<noteq> sep) s = [] then []
        else split_on sep (tl (dropWhile (\<lambda>c. c \<noteq> sep) s)))"
proof -
  have "split_on sep s = hd (split_on sep s) # tl (split_on sep s)"
    using split_on_nonempty [of sep s] by simp
  then show ?thesis
    by (simp only: hd_split_on tl_split_on)
qed

lemma pathname_split_fold:
  "pathname_split data callable st = fold (invoke callable) (split_on CHR ''/'' data) st"
proof (induction data callable st rule: pathname_split.induct)
  case (1 data callable st)
  let ?seg = "takeWhile (\<lambda>c. c \<noteq> CHR ''/'') data"
  let ?rest = "dropWhile (\<lambda>c. c \<noteq> CHR ''/'') data"
  show ?case
  proof (cases "?rest = []")
    case True
    have "pathname_split data callable st = invoke callable ?seg st"
      by (subst pathname_split.simps) (simp only: Let_def True if_False simp_thms)
    moreover have "split_on CHR ''/'' data = [?seg]"
      by (subst split_on_unfold) (simp only: True if_True simp_thms)
    ultimately show ?thesis by simp
  next
    case False
    have "pathname_split data callable st =
        pathname_split (tl ?rest) callable (invoke callable ?seg st)"
      by (subst pathname_split.simps) (simp only: Let_def False if_True simp_thms)
    moreover have "split_on CHR ''/'' data = ?seg # split_on CHR ''/'' (tl ?rest)"
      by (subst split_on_unfold) (simp only: False if_False simp_thms)
    ultimately show ?thesis
      using "1.IH" [OF refl refl False] by simp
  qed
qed

lemma invoke_kept:
  "invoke callable seg st = (if kept_segment seg then callable seg st else st)"
proof -
  have "(length seg \<noteq> 1 \<or> hd seg \<noteq> CHR ''.'') = (seg \<noteq> ''.'')"
    by (cases seg) auto
  then show ?thesis by (simp add: invoke_def kept_segment_def)
qed

lemma fold_invoke_filter:
  "fold (invoke callable) segs st = fold callable (filter kept_segment segs) st"
  by (induction segs arbitrary: st) (simp_all add: invoke_kept)

lemma fold_normalize_append_sep:
  "fold normalize_append names \<lparr>norm_separator = True, norm_result = r\<rparr> =
     \<lparr>norm_separator = True, norm_result = r @ concat (map (\<lambda>n. CHR ''/'' # n) names)\<rparr>"
  by (induction names arbitrary: r) (simp_all add: normalize_append_def)

lemma join_with_Cons:
  "join_with sep (n # names) = n @ concat (map (\<lambda>n. sep # n) names)"
  by (induction names arbitrary: n) simp_all

lemma fold_normalize_append_nosep:
  "fold normalize_append (n # names) \<lparr>norm_separator = False, norm_result = r\<rparr> =
     \<lparr>norm_separator = True, norm_result = r @ join_with CHR ''/'' (n # names)\<rparr>"
  by (simp add: normalize_append_def fold_normalize_append_sep join_with_Cons)

lemma take1_absolute:
  "(case s of [] \<Rightarrow> False | c # _ \<Rightarrow> c = CHR ''/'') = (take 1 s = ''/'')"
  by (cases s) auto

lemma normalize_spec_take:
  "normalize_spec s =
     (let kept = filter kept_segment (split_on CHR ''/'' s);
          absolute = (take 1 s = ''/'')
      in if kept = [] then (if absolute then ''/'' else ''.'')
         else (if absolute then ''/'' else []) @ join_with CHR ''/'' kept)"
  by (simp only: normalize_spec_def take1_absolute)

lemma pathname_normalize_refines: "pathname_normalize s = normalize_spec s"
proof -
  let ?kept = "filter kept_segment (split_on CHR ''/'' s)"
  let ?abs = "take 1 s = ''/''"
  have split: "pathname_split s normalize_append \<lparr>norm_separator = ?abs, norm_result = []\<rparr> =
      fold normalize_append ?kept \<lparr>norm_separator = ?abs, norm_result = []\<rparr>"
    by (simp only: pathname_split_fold fold_invoke_filter)
  show ?thesis
  proof (cases ?kept)
    case Nil
    show ?thesis
      unfolding pathname_normalize_def normalize_spec_take Let_def split Nil
      by simp
  next
    case (Cons n names)
    then have "kept_segment n" by (metis filter_eq_ConsD)
    then have n: "n \<noteq> []" by (simp add: kept_segment_def)
    show ?thesis
    proof (cases ?abs)
      case True
      have "fold normalize_append ?kept \<lparr>norm_separator = True, norm_result = []\<rparr> =
          \<lparr>norm_separator = True, norm_result = CHR ''/'' # join_with CHR ''/'' ?kept\<rparr>"
        unfolding Cons by (simp only: fold_normalize_append_sep join_with_Cons) simp
      then show ?thesis
        unfolding pathname_normalize_def normalize_spec_take Let_def split
        using True Cons by simp
    next
      case False
      have "fold normalize_append ?kept \<lparr>norm_separator = False, norm_result = []\<rparr> =
          \<lparr>norm_separator = True, norm_result = join_with CHR ''/'' ?kept\<rparr>"
        unfolding Cons by (simp only: fold_normalize_append_nosep) simp
      moreover have "join_with CHR ''/'' ?kept \<noteq> []"
        using n by (simp add: Cons join_with_Cons)
      ultimately show ?thesis
        unfolding pathname_normalize_def normalize_spec_take Let_def split
        using False Cons by simp
    qed
  qed
qed

lemma split_on_no_sep: "seg \<in> set (split_on sep s) \<Longrightarrow> sep \<notin> set seg"
proof (induction s arbitrary: seg)
  case Nil
  then show ?case by simp
next
  case (Cons c cs)
  have hd_in: "hd (split_on sep cs) \<in> set (split_on sep cs)"
    using split_on_nonempty [of sep cs] by simp
  show ?case
  proof (cases "c = sep")
    case True
    with Cons show ?thesis by auto
  next
    case False
    with Cons.prems have "seg = c # hd (split_on sep cs) \<or> seg \<in> set (tl (split_on sep cs))"
      by simp
    then show ?thesis
    proof
      assume "seg = c # hd (split_on sep cs)"
      then show ?thesis using False Cons.IH [OF hd_in] by auto
    next
      assume "seg \<in> set (tl (split_on sep cs))"
      then have "seg \<in> set (split_on sep cs)"
        using split_on_nonempty [of sep cs] by (metis list.set_sel(2))
      then show ?thesis by (rule Cons.IH)
    qed
  qed
qed

lemma normalize_spec_leading:
  "(take 1 (normalize_spec s) = ''/'') = (take 1 s = ''/'')"
proof (cases "filter kept_segment (split_on CHR ''/'' s)")
  case Nil
  then show ?thesis by (simp add: normalize_spec_take)
next
  case (Cons n names)
  then have "n \<in> set (filter kept_segment (split_on CHR ''/'' s))" by simp
  then have "kept_segment n" and "n \<in> set (split_on CHR ''/'' s)" by simp_all
  then have "n \<noteq> []" and "CHR ''/'' \<notin> set n"
    by (simp_all add: kept_segment_def split_on_no_sep)
  then have "take 1 n \<noteq> ''/''" by (cases n) auto
  then have "take 1 (join_with CHR ''/'' (n # names)) \<noteq> ''/''"
    using \<open>n \<noteq> []\<close> by (cases n) (simp_all add: join_with_Cons)
  then show ?thesis by (simp add: normalize_spec_take Cons)
qed

text \<open>
  Claim C1. For every string \<open>s\<close>, \<open>pathname_normalize\<close> computes what the specification
  describes: the segments between slashes that are neither empty nor a single dot (a
  double dot is kept as it is), joined with slashes, behind a leading slash exactly when
  \<open>s\<close> begins with one, and \<^verbatim>\<open>"."\<close> or \<^verbatim>\<open>"/"\<close> when no segment is left. The four
  examples of the specification evaluate as stated.
\<close>

theorem pathname_normalize_correct:
  "pathname_normalize s = normalize_spec s
   \<and> (take 1 (pathname_normalize s) = ''/'') = (take 1 s = ''/'')
   \<and> kept_segment ''..'' \<and> \<not> kept_segment [] \<and> \<not> kept_segment ''.''
   \<and> pathname_normalize ''a//b/./c'' = ''a/b/c''
   \<and> pathname_normalize ''/a/./b'' = ''/a/b''
   \<and> pathname_normalize [] = ''.''
   \<and> pathname_normalize ''/'' = ''/''"
proof -
  have eval: "normalize_spec ''a//b/./c'' = ''a/b/c''" "normalize_spec ''/a/./b'' = ''/a/b''"
    "normalize_spec [] = ''.''" "normalize_spec ''/'' = ''/''"
    by (simp_all add: normalize_spec_def kept_segment_def)
  show ?thesis
    by (simp only: pathname_normalize_refines normalize_spec_leading eval)
       (simp add: kept_segment_def)
qed

theorem pathname_normalize_correct_witness:
  "pathname_normalize ''/x/../y//.'' = ''/x/../y''
   \<and> normalize_spec ''/x/../y//.'' = ''/x/../y''"
proof -
  have "normalize_spec ''/x/../y//.'' = ''/x/../y''"
    by (simp add: normalize_spec_def kept_segment_def)
  then show ?thesis
    using pathname_normalize_correct [of "''/x/../y//.''"] by simp
qed

lemma unmangle_loop_copy:
  "c \<noteq> CHR 0x5C \<Longrightarrow> unmangle_loop (c # cs) acc = unmangle_loop cs (acc @ [c])"
  by simp

lemma unmangle_loop_truncated:
  "length cs < 3 \<Longrightarrow> unmangle_loop (CHR 0x5C # cs) acc = Inl (runtime ''fs-unmangle-path'')"
  by simp

lemma digit_upto_iff: "digit_upto hi d = (\<not> (d < CHR ''0'' \<or> d > hi))"
  by (auto simp: digit_upto_def)

lemma unmangle_loop_escape:
  assumes "digit_upto CHR ''3'' d1" "digit_upto CHR ''7'' d2" "digit_upto CHR ''7'' d3"
  shows "unmangle_loop (CHR 0x5C # d1 # d2 # d3 # rest) acc =
         unmangle_loop rest
           (acc @ [char_of (64 * octal_value d1 + 8 * octal_value d2 + octal_value d3)])"
proof -
  have "push_bit 3 (push_bit 3 (of_char d1 - 48 :: nat) + (of_char d2 - 48)) + (of_char d3 - 48)
      = 64 * octal_value d1 + 8 * octal_value d2 + octal_value d3"
    by (simp add: push_bit_eq_mult octal_value_def)
  then show ?thesis
    using assms by (simp add: digit_upto_iff Let_def)
qed

lemma unmangle_loop_bad_digit:
  assumes "\<not> (digit_upto CHR ''3'' d1 \<and> digit_upto CHR ''7'' d2 \<and> digit_upto CHR ''7'' d3)"
  shows "unmangle_loop (CHR 0x5C # d1 # d2 # d3 # rest) acc = Inl (runtime ''fs-unmangle-path'')"
  using assms by (auto simp: digit_upto_iff Let_def)

lemmas [simp del] = unmangle_loop.simps(2)

lemma unmangle_loop_acc:
  "unmangle_loop s acc = map_sum id ((@) acc) (unmangle_loop s [])"
proof (induction s arbitrary: acc rule: length_induct)
  case (1 s)
  note IH = "1.IH" [rule_format]
  show ?case
  proof (cases s)
    case Nil
    then show ?thesis by simp
  next
    case (Cons c cs)
    show ?thesis
    proof (cases "c = CHR 0x5C")
      case False
      have "unmangle_loop s acc = unmangle_loop cs (acc @ [c])"
        using False Cons by (simp add: unmangle_loop_copy)
      also have "\<dots> = map_sum id ((@) (acc @ [c])) (unmangle_loop cs [])"
        by (rule IH) (simp add: Cons)
      also have "\<dots> = map_sum id ((@) acc) (map_sum id ((@) [c]) (unmangle_loop cs []))"
        by (cases "unmangle_loop cs []") simp_all
      also have "map_sum id ((@) [c]) (unmangle_loop cs []) = unmangle_loop cs [c]"
        by (rule IH [symmetric]) (simp add: Cons)
      also have "\<dots> = unmangle_loop s []"
        using False Cons by (simp add: unmangle_loop_copy)
      finally show ?thesis .
    next
      case True
      show ?thesis
      proof (cases "length cs < 3")
        case short: True
        then show ?thesis using True Cons by (simp add: unmangle_loop_truncated)
      next
        case False
        then obtain d1 d2 d3 rest where cs: "cs = d1 # d2 # d3 # rest"
          by (cases cs; cases "tl cs"; cases "tl (tl cs)") auto
        show ?thesis
        proof (cases "digit_upto CHR ''3'' d1 \<and> digit_upto CHR ''7'' d2 \<and> digit_upto CHR ''7'' d3")
          case bad: False
          then show ?thesis
            using True Cons cs by (simp add: unmangle_loop_bad_digit)
        next
          case good: True
          let ?b = "char_of (64 * octal_value d1 + 8 * octal_value d2 + octal_value d3)"
          have step: "unmangle_loop s a = unmangle_loop rest (a @ [?b])" for a
            using good True Cons cs by (simp add: unmangle_loop_escape)
          have "unmangle_loop s acc = map_sum id ((@) (acc @ [?b])) (unmangle_loop rest [])"
            unfolding step by (rule IH) (simp add: Cons cs)
          also have "\<dots> = map_sum id ((@) acc) (map_sum id ((@) [?b]) (unmangle_loop rest []))"
            by (cases "unmangle_loop rest []") simp_all
          also have "map_sum id ((@) [?b]) (unmangle_loop rest []) = unmangle_loop rest [?b]"
            by (rule IH [symmetric]) (simp add: Cons cs)
          also have "\<dots> = unmangle_loop s []"
            by (simp add: step)
          finally show ?thesis .
        qed
      qed
    qed
  qed
qed

lemma unmangle_loop_Cons:
  "unmangle_loop s [b] = map_sum id ((#) b) (unmangle_loop s [])"
proof -
  have "((@) [b]) = ((#) b)" by auto
  then show ?thesis using unmangle_loop_acc [of s "[b]"] by simp
qed

text \<open>
  Claim C2. The decoder copies every byte other than a backslash; a backslash followed by
  three digits, the first from 0 to 3 and the others from 0 to 7, becomes the one byte
  with that octal value; a backslash with fewer than three bytes behind it, or with a
  byte outside these ranges among the three, raises the decode error; the three examples
  of the specification evaluate as stated. (An error further on in the string is the
  result of the whole call, which is what \<open>map_sum\<close> says.)
\<close>

theorem unmangle_pathname_from_proc_correct:
  "unmangle_pathname_from_proc [] = Inr []
   \<and> (c \<noteq> CHR 0x5C \<longrightarrow>
        unmangle_pathname_from_proc (c # cs) =
          map_sum id ((#) c) (unmangle_pathname_from_proc cs))
   \<and> (digit_upto CHR ''3'' d1 \<and> digit_upto CHR ''7'' d2 \<and> digit_upto CHR ''7'' d3 \<longrightarrow>
        unmangle_pathname_from_proc (CHR 0x5C # d1 # d2 # d3 # rest) =
          map_sum id ((#) (char_of (64 * octal_value d1 + 8 * octal_value d2 + octal_value d3)))
            (unmangle_pathname_from_proc rest))
   \<and> (length short < 3 \<longrightarrow>
        unmangle_pathname_from_proc (CHR 0x5C # short) = Inl (runtime ''fs-unmangle-path''))
   \<and> (\<not> (digit_upto CHR ''3'' e1 \<and> digit_upto CHR ''7'' e2 \<and> digit_upto CHR ''7'' e3) \<longrightarrow>
        unmangle_pathname_from_proc (CHR 0x5C # e1 # e2 # e3 # rest') =
          Inl (runtime ''fs-unmangle-path''))
   \<and> unmangle_pathname_from_proc (''/mnt/my'' @ [CHR 0x5C] @ ''040disk'') = Inr ''/mnt/my disk''
   \<and> unmangle_pathname_from_proc ([CHR 0x5C] @ ''04'') = Inl (runtime ''fs-unmangle-path'')
   \<and> unmangle_pathname_from_proc ([CHR 0x5C] @ ''089'') = Inl (runtime ''fs-unmangle-path'')"
proof (intro conjI impI)
  show "unmangle_pathname_from_proc [] = Inr []"
    by (simp add: unmangle_pathname_from_proc_def)
next
  assume "c \<noteq> CHR 0x5C"
  then show "unmangle_pathname_from_proc (c # cs) =
      map_sum id ((#) c) (unmangle_pathname_from_proc cs)"
    by (simp add: unmangle_pathname_from_proc_def unmangle_loop_copy unmangle_loop_Cons)
next
  assume "digit_upto CHR ''3'' d1 \<and> digit_upto CHR ''7'' d2 \<and> digit_upto CHR ''7'' d3"
  then show "unmangle_pathname_from_proc (CHR 0x5C # d1 # d2 # d3 # rest) =
      map_sum id ((#) (char_of (64 * octal_value d1 + 8 * octal_value d2 + octal_value d3)))
        (unmangle_pathname_from_proc rest)"
    by (simp add: unmangle_pathname_from_proc_def unmangle_loop_escape unmangle_loop_Cons)
next
  assume "length short < 3"
  then show "unmangle_pathname_from_proc (CHR 0x5C # short) = Inl (runtime ''fs-unmangle-path'')"
    by (simp add: unmangle_pathname_from_proc_def unmangle_loop_truncated)
next
  assume "\<not> (digit_upto CHR ''3'' e1 \<and> digit_upto CHR ''7'' e2 \<and> digit_upto CHR ''7'' e3)"
  then show "unmangle_pathname_from_proc (CHR 0x5C # e1 # e2 # e3 # rest') =
      Inl (runtime ''fs-unmangle-path'')"
    by (simp add: unmangle_pathname_from_proc_def unmangle_loop_bad_digit)
next
  show "unmangle_pathname_from_proc (''/mnt/my'' @ [CHR 0x5C] @ ''040disk'') = Inr ''/mnt/my disk''"
    by code_simp
next
  show "unmangle_pathname_from_proc ([CHR 0x5C] @ ''04'') = Inl (runtime ''fs-unmangle-path'')"
    by code_simp
next
  show "unmangle_pathname_from_proc ([CHR 0x5C] @ ''089'') = Inl (runtime ''fs-unmangle-path'')"
    by code_simp
qed

theorem unmangle_pathname_from_proc_correct_witness:
  "CHR ''a'' \<noteq> CHR 0x5C
   \<and> digit_upto CHR ''3'' CHR ''1'' \<and> digit_upto CHR ''7'' CHR ''0'' \<and> digit_upto CHR ''7'' CHR ''1''
   \<and> length ''04'' < 3
   \<and> \<not> (digit_upto CHR ''3'' CHR ''0'' \<and> digit_upto CHR ''7'' CHR ''8'' \<and> digit_upto CHR ''7'' CHR ''9'')
   \<and> unmangle_pathname_from_proc (CHR ''a'' # ''b'') =
       map_sum id ((#) CHR ''a'') (unmangle_pathname_from_proc ''b'')
   \<and> unmangle_pathname_from_proc (CHR 0x5C # CHR ''1'' # CHR ''0'' # CHR ''1'' # ''x'') =
       map_sum id ((#) CHR ''A'') (unmangle_pathname_from_proc ''x'')
   \<and> unmangle_pathname_from_proc (CHR 0x5C # ''04'') = Inl (runtime ''fs-unmangle-path'')
   \<and> unmangle_pathname_from_proc (CHR 0x5C # CHR ''0'' # CHR ''8'' # CHR ''9'' # ''z'') =
       Inl (runtime ''fs-unmangle-path'')"
proof -
  have h1: "CHR ''a'' \<noteq> CHR 0x5C" by simp
  have h2: "digit_upto CHR ''3'' CHR ''1'' \<and> digit_upto CHR ''7'' CHR ''0'' \<and> digit_upto CHR ''7'' CHR ''1''"
    by (simp add: digit_upto_def less_eq_char_def)
  have h3: "length ''04'' < 3" by simp
  have h4: "\<not> (digit_upto CHR ''3'' CHR ''0'' \<and> digit_upto CHR ''7'' CHR ''8'' \<and> digit_upto CHR ''7'' CHR ''9'')"
    by (simp add: digit_upto_def less_eq_char_def)
  have v: "char_of (64 * octal_value CHR ''1'' + 8 * octal_value CHR ''0'' + octal_value CHR ''1'') = CHR ''A''"
    by code_simp
  show ?thesis
    using unmangle_pathname_from_proc_correct
      [of "CHR ''a''" "''b''" "CHR ''1''" "CHR ''0''" "CHR ''1''" "''x''" "''04''"
          "CHR ''0''" "CHR ''8''" "CHR ''9''" "''z''"]
      h1 h2 h3 h4 v
    by simp
qed

text \<open>
  Claim C4 says that every line is parsed on its own and that a line without the
  mandatory fields raises the parse error. The code does raise it for such a line at the
  end of the table, but its two searches for a blank run to the end of the buffer and
  not to the end of the line. For the table of the two lines \<^verbatim>\<open>1 2 3:4\<close> and
  \<^verbatim>\<open>5 6 7:8 / /mnt rw\<close> the first line has no mount point, and the code, instead of
  raising, takes the \<^verbatim>\<open>6\<close> of the second line as the mount point of device 3:4.
\<close>

theorem parse_mountinfo_short_line:
  "parse_mountinfo (''1 2 3:4'' @ [CHR 0x0A] @ ''5 6 7:8 / /mnt rw'' @ [CHR 0x0A]) =
     Inr [\<lparr>mount_device = makedev 3 4, mount_path = ''6''\<rparr>,
          \<lparr>mount_device = makedev 7 8, mount_path = ''/mnt''\<rparr>]
   \<and> parse_mountinfo (''1 2 3:4'' @ [CHR 0x0A]) = Inl (runtime ''fs-mountinfo-error'')
   \<and> parse_mountinfo (''5 6 7:8 / /mnt rw'' @ [CHR 0x0A]) =
       Inr [\<lparr>mount_device = makedev 7 8, mount_path = ''/mnt''\<rparr>]"
  by code_simp

lemmas open_consts =
  O_RDONLY_def O_WRONLY_def O_RDWR_def O_ACCMODE_def O_CREAT_def O_EXCL_def O_TRUNC_def
  O_APPEND_def O_DIRECTORY_def O_TMPFILE_def

lemmas mode_consts =
  S_IRUSR_def S_IWUSR_def S_IXUSR_def S_IRGRP_def S_IWGRP_def S_IXGRP_def
  S_IROTH_def S_IWOTH_def S_IXOTH_def

lemma file_flags_of:
  "file_flags opts =
     flags_of (o_read \<in> opts) (o_write \<in> opts) (o_append \<in> opts) (o_create \<in> opts)
       (o_exclusive \<in> opts) (o_tmpfile \<in> opts) (o_truncate \<in> opts)"
  by (simp add: file_flags_def flags_of_def options_all_def open_consts Let_def ac_simps)

lemma file_mode_of:
  "file_mode opts = mode_of (o_executable \<in> opts) (o_group \<in> opts) (o_others \<in> opts)"
  by (simp add: file_mode_def mode_of_def options_all_def mode_consts Let_def ac_simps)

lemma flags_of_access:
  "flags_of r w a c e t u AND 3 = (if r \<and> w then 2 else if w then 1 else 0)"
  by (cases r; cases w; cases a; cases c; cases e; cases t; cases u) (simp_all add: flags_of_def)

lemma flags_of_append: "(flags_of r w a c e t u AND 0x400 = 0x400) = a"
  by (cases r; cases w; cases a; cases c; cases e; cases t; cases u) (simp_all add: flags_of_def)

lemma flags_of_create: "(flags_of r w a c e t u AND 0x40 = 0x40) = c"
  by (cases r; cases w; cases a; cases c; cases e; cases t; cases u) (simp_all add: flags_of_def)

lemma flags_of_excl: "(flags_of r w a c e t u AND 0x80 = 0x80) = e"
  by (cases r; cases w; cases a; cases c; cases e; cases t; cases u) (simp_all add: flags_of_def)

lemma flags_of_tmpfile: "(flags_of r w a c e t u AND 0x410000 = 0x410000) = t"
  by (cases r; cases w; cases a; cases c; cases e; cases t; cases u) (simp_all add: flags_of_def)

lemma flags_of_trunc: "(flags_of r w a c e t u AND 0x200 = 0x200) = u"
  by (cases r; cases w; cases a; cases c; cases e; cases t; cases u) (simp_all add: flags_of_def)

lemma mode_of_bits:
  "mode_of x g ot AND 0x180 = 0x180"
  "(mode_of x g ot AND 0x40 = 0x40) = x"
  "(mode_of x g ot AND 0x30 = 0x30) = g"
  "(mode_of x g ot AND 0x08 = 0x08) = (g \<and> x)"
  "(mode_of x g ot AND 0x06 = 0x06) = ot"
  "(mode_of x g ot AND 0x01 = 0x01) = (ot \<and> x)"
  "mode_of x g ot AND NOT 0x1FF = 0"
  by (cases x; cases g; cases ot; simp add: mode_of_def)+

lemma mode_of_single_bits:
  "mode_of x g ot AND 0x100 = 0x100"
  "mode_of x g ot AND 0x80 = 0x80"
  "(mode_of x g ot AND 0x20 = 0x20) = g"
  "(mode_of x g ot AND 0x10 = 0x10) = g"
  "(mode_of x g ot AND 0x04 = 0x04) = ot"
  "(mode_of x g ot AND 0x02 = 0x02) = ot"
  by (cases x; cases g; cases ot; simp add: mode_of_def)+

lemma mode_of_whole:
  "mode_of x g ot =
     0x100 OR 0x80 OR (if x then 0x40 else 0) OR (if g then 0x20 OR 0x10 else 0)
     OR (if g \<and> x then 0x08 else 0) OR (if ot then 0x04 OR 0x02 else 0)
     OR (if ot \<and> x then 0x01 else 0)"
  by (cases x; cases g; cases ot; simp add: mode_of_def)

text \<open>
  Claim C5. For every option set the constructor derives: \<^verbatim>\<open>O_RDWR\<close> for read and write
  together, \<^verbatim>\<open>O_RDONLY\<close> for read alone, \<^verbatim>\<open>O_WRONLY\<close> for write alone; the flag of
  append, create, exclusive, tmpfile and truncate exactly when the option is present, and
  no other bit; a mode that always holds owner read and write, owner execute exactly for
  executable, group read and group write each exactly for group, group execute exactly
  for group with executable, and the same for others; and no bit outside the nine
  permission bits. The last equation gives the whole mode: it is the union of exactly
  these bits.
\<close>

theorem file_flags_mode_correct:
  "file_flags opts AND O_ACCMODE =
     (if o_read \<in> opts \<and> o_write \<in> opts then O_RDWR
      else if o_read \<in> opts then O_RDONLY
      else if o_write \<in> opts then O_WRONLY else 0)
   \<and> (file_flags opts AND O_APPEND = O_APPEND) = (o_append \<in> opts)
   \<and> (file_flags opts AND O_CREAT = O_CREAT) = (o_create \<in> opts)
   \<and> (file_flags opts AND O_EXCL = O_EXCL) = (o_exclusive \<in> opts)
   \<and> (file_flags opts AND O_TMPFILE = O_TMPFILE) = (o_tmpfile \<in> opts)
   \<and> (file_flags opts AND O_TRUNC = O_TRUNC) = (o_truncate \<in> opts)
   \<and> file_flags opts =
       (file_flags opts AND O_ACCMODE)
       OR (if o_append \<in> opts then option_flag o_append else 0)
       OR (if o_create \<in> opts then option_flag o_create else 0)
       OR (if o_exclusive \<in> opts then option_flag o_exclusive else 0)
       OR (if o_tmpfile \<in> opts then option_flag o_tmpfile else 0)
       OR (if o_truncate \<in> opts then option_flag o_truncate else 0)
   \<and> file_mode opts AND (S_IRUSR OR S_IWUSR) = S_IRUSR OR S_IWUSR
   \<and> (file_mode opts AND S_IXUSR = S_IXUSR) = (o_executable \<in> opts)
   \<and> (file_mode opts AND (S_IRGRP OR S_IWGRP) = S_IRGRP OR S_IWGRP) = (o_group \<in> opts)
   \<and> (file_mode opts AND S_IXGRP = S_IXGRP) = (o_group \<in> opts \<and> o_executable \<in> opts)
   \<and> (file_mode opts AND (S_IROTH OR S_IWOTH) = S_IROTH OR S_IWOTH) = (o_others \<in> opts)
   \<and> (file_mode opts AND S_IXOTH = S_IXOTH) = (o_others \<in> opts \<and> o_executable \<in> opts)
   \<and> file_mode opts AND NOT 0x1FF = 0
   \<and> file_mode opts AND S_IRUSR = S_IRUSR
   \<and> file_mode opts AND S_IWUSR = S_IWUSR
   \<and> (file_mode opts AND S_IRGRP = S_IRGRP) = (o_group \<in> opts)
   \<and> (file_mode opts AND S_IWGRP = S_IWGRP) = (o_group \<in> opts)
   \<and> (file_mode opts AND S_IROTH = S_IROTH) = (o_others \<in> opts)
   \<and> (file_mode opts AND S_IWOTH = S_IWOTH) = (o_others \<in> opts)
   \<and> file_mode opts =
       S_IRUSR OR S_IWUSR
       OR (if o_executable \<in> opts then S_IXUSR else 0)
       OR (if o_group \<in> opts then S_IRGRP OR S_IWGRP else 0)
       OR (if o_group \<in> opts \<and> o_executable \<in> opts then S_IXGRP else 0)
       OR (if o_others \<in> opts then S_IROTH OR S_IWOTH else 0)
       OR (if o_others \<in> opts \<and> o_executable \<in> opts then S_IXOTH else 0)"
proof -
  let ?r = "o_read \<in> opts" and ?w = "o_write \<in> opts" and ?a = "o_append \<in> opts"
    and ?c = "o_create \<in> opts" and ?e = "o_exclusive \<in> opts" and ?t = "o_tmpfile \<in> opts"
    and ?u = "o_truncate \<in> opts"
  have acc: "file_flags opts AND O_ACCMODE =
      (if ?r \<and> ?w then O_RDWR else if ?r then O_RDONLY else if ?w then O_WRONLY else 0)"
    by (simp add: file_flags_of flags_of_access open_consts)
  have bits: "(file_flags opts AND O_APPEND = O_APPEND) = ?a"
    "(file_flags opts AND O_CREAT = O_CREAT) = ?c"
    "(file_flags opts AND O_EXCL = O_EXCL) = ?e"
    "(file_flags opts AND O_TMPFILE = O_TMPFILE) = ?t"
    "(file_flags opts AND O_TRUNC = O_TRUNC) = ?u"
    by (simp_all add: file_flags_of open_consts flags_of_append flags_of_create flags_of_excl
        flags_of_tmpfile flags_of_trunc)
  have whole: "file_flags opts =
       (file_flags opts AND O_ACCMODE)
       OR (if ?a then option_flag o_append else 0)
       OR (if ?c then option_flag o_create else 0)
       OR (if ?e then option_flag o_exclusive else 0)
       OR (if ?t then option_flag o_tmpfile else 0)
       OR (if ?u then option_flag o_truncate else 0)"
    unfolding file_flags_of O_ACCMODE_def flags_of_access
    by (simp add: flags_of_def open_consts)
  have mode: "file_mode opts AND (S_IRUSR OR S_IWUSR) = S_IRUSR OR S_IWUSR"
    "(file_mode opts AND S_IXUSR = S_IXUSR) = (o_executable \<in> opts)"
    "(file_mode opts AND (S_IRGRP OR S_IWGRP) = S_IRGRP OR S_IWGRP) = (o_group \<in> opts)"
    "(file_mode opts AND S_IXGRP = S_IXGRP) = (o_group \<in> opts \<and> o_executable \<in> opts)"
    "(file_mode opts AND (S_IROTH OR S_IWOTH) = S_IROTH OR S_IWOTH) = (o_others \<in> opts)"
    "(file_mode opts AND S_IXOTH = S_IXOTH) = (o_others \<in> opts \<and> o_executable \<in> opts)"
    by (simp_all add: file_mode_of mode_consts mode_of_bits)
  have rest: "file_mode opts AND NOT 0x1FF = 0"
    by (simp only: file_mode_of mode_of_bits(7))
  have single: "file_mode opts AND S_IRUSR = S_IRUSR"
    "file_mode opts AND S_IWUSR = S_IWUSR"
    "(file_mode opts AND S_IRGRP = S_IRGRP) = (o_group \<in> opts)"
    "(file_mode opts AND S_IWGRP = S_IWGRP) = (o_group \<in> opts)"
    "(file_mode opts AND S_IROTH = S_IROTH) = (o_others \<in> opts)"
    "(file_mode opts AND S_IWOTH = S_IWOTH) = (o_others \<in> opts)"
    by (simp_all add: file_mode_of mode_consts mode_of_single_bits)
  have exact: "file_mode opts =
       S_IRUSR OR S_IWUSR
       OR (if o_executable \<in> opts then S_IXUSR else 0)
       OR (if o_group \<in> opts then S_IRGRP OR S_IWGRP else 0)
       OR (if o_group \<in> opts \<and> o_executable \<in> opts then S_IXGRP else 0)
       OR (if o_others \<in> opts then S_IROTH OR S_IWOTH else 0)
       OR (if o_others \<in> opts \<and> o_executable \<in> opts then S_IXOTH else 0)"
    unfolding file_mode_of mode_consts by (rule mode_of_whole)
  show ?thesis
    using acc bits whole mode rest single exact by (intro conjI)
qed

theorem file_flags_mode_correct_witness:
  "file_flags {o_read, o_write, o_create, o_executable, o_group} AND O_ACCMODE = O_RDWR
   \<and> file_flags {o_read, o_write, o_create, o_executable, o_group} AND O_CREAT = O_CREAT
   \<and> file_flags {o_read, o_write, o_create, o_executable, o_group} AND O_TRUNC \<noteq> O_TRUNC
   \<and> file_flags {o_read, o_write, o_create, o_executable, o_group} = 0x42
   \<and> file_mode {o_read, o_write, o_create, o_executable, o_group} AND S_IXGRP = S_IXGRP
   \<and> file_mode {o_read, o_write, o_create, o_executable, o_group} AND S_IXOTH \<noteq> S_IXOTH
   \<and> file_mode {o_read, o_write, o_create, o_executable, o_group} AND S_IROTH \<noteq> S_IROTH
   \<and> file_mode {o_read, o_write, o_create, o_executable, o_group} = 0x1F8
   \<and> file_mode {} = 0x180
   \<and> file_mode {} AND S_IRGRP \<noteq> S_IRGRP
   \<and> file_mode {o_others} = 0x186"
proof -
  let ?S = "{o_read, o_write, o_create, o_executable, o_group}"
  note t = file_flags_mode_correct [of ?S]
  note e = file_flags_mode_correct [of "{}"]
  note o = file_flags_mode_correct [of "{o_others}"]
  from t have "file_flags ?S AND O_ACCMODE =
     (if o_read \<in> ?S \<and> o_write \<in> ?S then O_RDWR
      else if o_read \<in> ?S then O_RDONLY
      else if o_write \<in> ?S then O_WRONLY else 0)"
    by blast
  then have a: "file_flags ?S AND O_ACCMODE = O_RDWR" by simp
  from t have "(file_flags ?S AND O_CREAT = O_CREAT) = (o_create \<in> ?S)" by blast
  then have c: "file_flags ?S AND O_CREAT = O_CREAT" by simp
  from t have "(file_flags ?S AND O_TRUNC = O_TRUNC) = (o_truncate \<in> ?S)" by blast
  then have u: "file_flags ?S AND O_TRUNC \<noteq> O_TRUNC" by simp
  from t have "(file_mode ?S AND S_IXGRP = S_IXGRP) = (o_group \<in> ?S \<and> o_executable \<in> ?S)"
    by blast
  then have xg: "file_mode ?S AND S_IXGRP = S_IXGRP" by simp
  from t have "(file_mode ?S AND S_IXOTH = S_IXOTH) = (o_others \<in> ?S \<and> o_executable \<in> ?S)"
    by blast
  then have xo: "file_mode ?S AND S_IXOTH \<noteq> S_IXOTH" by simp
  from t have "(file_mode ?S AND S_IROTH = S_IROTH) = (o_others \<in> ?S)" by blast
  then have ro: "file_mode ?S AND S_IROTH \<noteq> S_IROTH" by simp
  from t have w: "file_flags ?S =
       (file_flags ?S AND O_ACCMODE)
       OR (if o_append \<in> ?S then option_flag o_append else 0)
       OR (if o_create \<in> ?S then option_flag o_create else 0)
       OR (if o_exclusive \<in> ?S then option_flag o_exclusive else 0)
       OR (if o_tmpfile \<in> ?S then option_flag o_tmpfile else 0)
       OR (if o_truncate \<in> ?S then option_flag o_truncate else 0)"
    by blast
  have f: "file_flags ?S = 0x42"
    by (subst w, simp only: a) (simp add: open_consts)
  from t have "file_mode ?S =
       S_IRUSR OR S_IWUSR
       OR (if o_executable \<in> ?S then S_IXUSR else 0)
       OR (if o_group \<in> ?S then S_IRGRP OR S_IWGRP else 0)
       OR (if o_group \<in> ?S \<and> o_executable \<in> ?S then S_IXGRP else 0)
       OR (if o_others \<in> ?S then S_IROTH OR S_IWOTH else 0)
       OR (if o_others \<in> ?S \<and> o_executable \<in> ?S then S_IXOTH else 0)"
    by blast
  then have m: "file_mode ?S = 0x1F8"
    by (simp add: mode_consts)
  from e have "file_mode {} =
       S_IRUSR OR S_IWUSR
       OR (if o_executable \<in> {} then S_IXUSR else 0)
       OR (if o_group \<in> {} then S_IRGRP OR S_IWGRP else 0)
       OR (if o_group \<in> {} \<and> o_executable \<in> {} then S_IXGRP else 0)
       OR (if o_others \<in> {} then S_IROTH OR S_IWOTH else 0)
       OR (if o_others \<in> {} \<and> o_executable \<in> {} then S_IXOTH else 0)"
    by blast
  then have m0: "file_mode {} = 0x180"
    by (simp add: mode_consts)
  from e have "(file_mode {} AND S_IRGRP = S_IRGRP) = (o_group \<in> {})" by blast
  then have g0: "file_mode {} AND S_IRGRP \<noteq> S_IRGRP" by simp
  from o have "file_mode {o_others} =
       S_IRUSR OR S_IWUSR
       OR (if o_executable \<in> {o_others} then S_IXUSR else 0)
       OR (if o_group \<in> {o_others} then S_IRGRP OR S_IWGRP else 0)
       OR (if o_group \<in> {o_others} \<and> o_executable \<in> {o_others} then S_IXGRP else 0)
       OR (if o_others \<in> {o_others} then S_IROTH OR S_IWOTH else 0)
       OR (if o_others \<in> {o_others} \<and> o_executable \<in> {o_others} then S_IXOTH else 0)"
    by blast
  then have m1: "file_mode {o_others} = 0x186"
    by (simp add: mode_consts)
  from a c u f xg xo ro m m0 g0 m1 show ?thesis by blast
qed

text \<open>
  Claim C10. For an option set with neither read nor write, the flag derivation raises
  nothing (it is a total function) and yields the flags it yields with read added: the
  access-mode bits are 0, which is \<^verbatim>\<open>O_RDONLY\<close>, as for the set that holds read alone.
\<close>

theorem file_flags_default_access:
  assumes "o_read \<notin> opts" and "o_write \<notin> opts"
  shows "file_flags opts = file_flags (insert o_read opts)
         \<and> file_flags opts AND O_ACCMODE = O_RDONLY
         \<and> file_flags opts AND O_ACCMODE = file_flags {o_read} AND O_ACCMODE
         \<and> file_mode opts = file_mode (insert o_read opts)"
proof -
  have "file_flags opts = file_flags (insert o_read opts)"
    using assms by (simp add: file_flags_of flags_of_def)
  moreover have "file_flags opts AND O_ACCMODE = O_RDONLY"
    using assms by (simp add: file_flags_of flags_of_access open_consts)
  moreover have "file_flags {o_read} AND O_ACCMODE = O_RDONLY"
    by (simp add: file_flags_of flags_of_access open_consts)
  moreover have "file_mode opts = file_mode (insert o_read opts)"
    by (simp add: file_mode_of)
  ultimately show ?thesis by simp
qed

theorem file_flags_default_access_witness:
  "o_read \<notin> {o_create, o_truncate} \<and> o_write \<notin> {o_create, o_truncate}
   \<and> file_flags {o_create, o_truncate} = file_flags {o_read, o_create, o_truncate}
   \<and> file_flags {o_create, o_truncate} = O_CREAT OR O_TRUNC
   \<and> file_flags {o_create, o_truncate} AND O_ACCMODE = O_RDONLY"
proof -
  have h: "o_read \<notin> {o_create, o_truncate}" "o_write \<notin> {o_create, o_truncate}" by simp_all
  have v: "file_flags {o_create, o_truncate} = O_CREAT OR O_TRUNC"
    by (simp add: file_flags_of flags_of_def open_consts)
  show ?thesis
    using file_flags_default_access [OF h] h v by blast
qed

lemmas dt_consts =
  DT_UNKNOWN_def DT_FIFO_def DT_CHR_def DT_DIR_def DT_BLK_def DT_REG_def DT_LNK_def DT_SOCK_def

lemma map_dirent_type_known:
  "known_type t \<Longrightarrow> \<exists>k. map_dirent_type_to_kind t = Inr k"
  by (auto simp: known_type_def map_dirent_type_to_kind_def)

lemma map_dirent_type_bad:
  "\<not> known_type t \<Longrightarrow> map_dirent_type_to_kind t = Inl (runtime ''fs-bad-type-error'')"
  by (simp add: known_type_def map_dirent_type_to_kind_def)

lemma map_dirent_type_Inr: "map_dirent_type_to_kind t = Inr k \<Longrightarrow> known_type t"
  by (rule ccontr) (simp add: map_dirent_type_bad)

lemma map_dirent_type_Inl:
  "map_dirent_type_to_kind t = Inl e \<Longrightarrow> e = runtime ''fs-bad-type-error'' \<and> \<not> known_type t"
  using map_dirent_type_known [of t] map_dirent_type_bad [of t] by (cases "known_type t") auto

lemma map_dirent_type_each:
  "map_dirent_type_to_kind DT_BLK = Inr block_device"
  "map_dirent_type_to_kind DT_CHR = Inr character_device"
  "map_dirent_type_to_kind DT_DIR = Inr directory"
  "map_dirent_type_to_kind DT_FIFO = Inr named_pipe"
  "map_dirent_type_to_kind DT_LNK = Inr symbolic_link"
  "map_dirent_type_to_kind DT_REG = Inr regular_file"
  "map_dirent_type_to_kind DT_SOCK = Inr socket"
  "map_dirent_type_to_kind DT_UNKNOWN = Inr unknown"
  by (simp_all add: map_dirent_type_to_kind_def dt_consts)

lemma map_dirent_type_iff:
  "map_dirent_type_to_kind t = Inr k \<longleftrightarrow>
     t = DT_BLK \<and> k = block_device \<or> t = DT_CHR \<and> k = character_device
     \<or> t = DT_DIR \<and> k = directory \<or> t = DT_FIFO \<and> k = named_pipe
     \<or> t = DT_LNK \<and> k = symbolic_link \<or> t = DT_REG \<and> k = regular_file
     \<or> t = DT_SOCK \<and> k = socket \<or> t = DT_UNKNOWN \<and> k = unknown"
  by (auto simp: map_dirent_type_to_kind_def dt_consts split: if_splits)

lemma kind_UNIV:
  "(UNIV :: kind set) =
     {block_device, character_device, directory, named_pipe, symbolic_link,
      regular_file, socket, unknown}"
proof -
  have "k \<in> {block_device, character_device, directory, named_pipe, symbolic_link,
      regular_file, socket, unknown}" for k
    by (cases k) simp_all
  then show ?thesis by blast
qed

lemma logging_apply:
  "logging v e (l, s) = (case v e s of (stop, st') \<Rightarrow> (stop, l @ [(e, stop)], st'))"
  by (simp add: logging_def)

lemma scan_loop_logging:
  "scan_loop (logging v) answers (log0, st) =
     (case scan_loop v answers st of
        (res, st', remaining) \<Rightarrow> (res, (log0 @ visits v answers st, st'), remaining))"
proof (induction v answers st arbitrary: log0 rule: scan_loop.induct)
  case (1 visitor st)
  show ?case by simp
next
  case (2 visitor rv de rest st)
  show ?case
  proof (cases "rv \<noteq> 0")
    case True
    then show ?thesis by simp
  next
    case rv: False
    show ?thesis
    proof (cases de)
      case None
      with rv show ?thesis by simp
    next
      case (Some d)
      show ?thesis
      proof (cases "d_name d = ''.'' \<or> d_name d = ''..''")
        case True
        note ih = "2.IH"(1) [OF rv Some True]
        from rv Some True show ?thesis by (simp add: ih)
      next
        case nodot: False
        show ?thesis
        proof (cases "map_dirent_type_to_kind (d_type d)")
          case (Inl e)
          with rv Some nodot show ?thesis by simp
        next
          case (Inr k)
          let ?e = "\<lparr>entry_inode = d_ino d, entry_name = d_name d, entry_type = k\<rparr>"
          obtain stop st' where v: "visitor ?e st = (stop, st')" by (cases "visitor ?e st")
          show ?thesis
          proof (cases stop)
            case True
            with rv Some nodot Inr v show ?thesis by (simp add: logging_apply)
          next
            case False
            note ih = "2.IH"(2) [OF rv Some nodot Inr v [symmetric] False]
            from rv Some nodot Inr v False show ?thesis
              by (simp add: logging_apply ih split: prod.split)
          qed
        qed
      qed
    qed
  qed
qed
lemma scan_induct [case_names Nil Fail End Dot Bad Stop Go]:
  assumes "\<And>st. P [] st"
    and "\<And>rv de rest st. rv \<noteq> 0 \<Longrightarrow> P ((rv, de) # rest) st"
    and "\<And>rest st. P ((0, None) # rest) st"
    and "\<And>d rest st. dot_name (d_name d) \<Longrightarrow> P rest st \<Longrightarrow> P ((0, Some d) # rest) st"
    and "\<And>d rest st. \<not> dot_name (d_name d) \<Longrightarrow> \<not> known_type (d_type d)
           \<Longrightarrow> P ((0, Some d) # rest) st"
    and "\<And>d k rest st st'. \<not> dot_name (d_name d) \<Longrightarrow> map_dirent_type_to_kind (d_type d) = Inr k
           \<Longrightarrow> v (entry_of d k) st = (True, st') \<Longrightarrow> P ((0, Some d) # rest) st"
    and "\<And>d k rest st st'. \<not> dot_name (d_name d) \<Longrightarrow> map_dirent_type_to_kind (d_type d) = Inr k
           \<Longrightarrow> v (entry_of d k) st = (False, st') \<Longrightarrow> P rest st' \<Longrightarrow> P ((0, Some d) # rest) st"
  shows "P answers st"
proof (induction answers arbitrary: st)
  case Nil
  show ?case by (rule assms(1))
next
  case (Cons a rest)
  obtain rv de where a: "a = (rv, de)" by (cases a)
  show ?case
  proof (cases "rv = 0")
    case False
    then show ?thesis unfolding a by (rule assms(2))
  next
    case rv: True
    show ?thesis
    proof (cases de)
      case None
      show ?thesis unfolding a rv None by (rule assms(3))
    next
      case (Some d)
      show ?thesis
      proof (cases "dot_name (d_name d)")
        case True
        then show ?thesis unfolding a rv Some by (rule assms(4)) (rule Cons.IH)
      next
        case nodot: False
        show ?thesis
        proof (cases "known_type (d_type d)")
          case False
          with nodot show ?thesis unfolding a rv Some by (rule assms(5))
        next
          case True
          then obtain k where k: "map_dirent_type_to_kind (d_type d) = Inr k"
            using map_dirent_type_known by blast
          obtain stop st' where s: "v (entry_of d k) st = (stop, st')"
            by (cases "v (entry_of d k) st")
          show ?thesis
          proof (cases stop)
            case True
            with nodot k s show ?thesis unfolding a rv Some by (intro assms(6)) simp_all
          next
            case False
            with nodot k s show ?thesis unfolding a rv Some
              by (intro assms(7) [where st' = st'] Cons.IH) simp_all
          qed
        qed
      qed
    qed
  qed
qed

lemma scan_loop_steps:
  "rv \<noteq> 0 \<Longrightarrow> scan_loop v ((rv, de) # rest) st = (Inl (runtime ''fs-readdir-error''), st, rest)"
  "scan_loop v ((0, None) # rest) st = (Inr False, st, rest)"
  "dot_name (d_name d) \<Longrightarrow> scan_loop v ((0, Some d) # rest) st = scan_loop v rest st"
  "\<not> dot_name (d_name d) \<Longrightarrow> \<not> known_type (d_type d) \<Longrightarrow>
     scan_loop v ((0, Some d) # rest) st = (Inl (runtime ''fs-bad-type-error''), st, rest)"
  "\<not> dot_name (d_name d) \<Longrightarrow> map_dirent_type_to_kind (d_type d) = Inr k \<Longrightarrow>
     v (entry_of d k) st = (True, st') \<Longrightarrow>
     scan_loop v ((0, Some d) # rest) st = (Inr True, st', rest)"
  "\<not> dot_name (d_name d) \<Longrightarrow> map_dirent_type_to_kind (d_type d) = Inr k \<Longrightarrow>
     v (entry_of d k) st = (False, st') \<Longrightarrow>
     scan_loop v ((0, Some d) # rest) st = scan_loop v rest st'"
  by (simp_all add: dot_name_def entry_of_def map_dirent_type_bad)

lemma visits_steps:
  "rv \<noteq> 0 \<Longrightarrow> visits v ((rv, de) # rest) st = []"
  "visits v ((0, None) # rest) st = []"
  "dot_name (d_name d) \<Longrightarrow> visits v ((0, Some d) # rest) st = visits v rest st"
  "\<not> dot_name (d_name d) \<Longrightarrow> \<not> known_type (d_type d) \<Longrightarrow>
     visits v ((0, Some d) # rest) st = []"
  "\<not> dot_name (d_name d) \<Longrightarrow> map_dirent_type_to_kind (d_type d) = Inr k \<Longrightarrow>
     v (entry_of d k) st = (True, st') \<Longrightarrow>
     visits v ((0, Some d) # rest) st = [(entry_of d k, True)]"
  "\<not> dot_name (d_name d) \<Longrightarrow> map_dirent_type_to_kind (d_type d) = Inr k \<Longrightarrow>
     v (entry_of d k) st = (False, st') \<Longrightarrow>
     visits v ((0, Some d) # rest) st = (entry_of d k, False) # visits v rest st'"
  by (simp_all add: dot_name_def entry_of_def map_dirent_type_bad)

lemmas [simp del] = scan_loop.simps(2) visits.simps(2)

lemma visits_not_dot:
  "x \<in> set (visits v answers st) \<Longrightarrow> \<not> dot_name (entry_name (fst x))"
  by (induction answers st rule: scan_induct [where v = v])
     (auto simp: visits_steps entry_of_def)

lemma visits_source:
  "x \<in> set (visits v answers st) \<Longrightarrow>
     \<exists>d k. (0, Some d) \<in> set answers \<and> map_dirent_type_to_kind (d_type d) = Inr k
       \<and> fst x = entry_of d k"
  by (induction answers st rule: scan_induct [where v = v])
     (auto simp: visits_steps)

lemma visits_butlast:
  "x \<in> set (butlast (visits v answers st)) \<Longrightarrow> \<not> snd x"
  by (induction answers st rule: scan_induct [where v = v])
     (auto simp: visits_steps split: if_splits)

lemma scan_loop_stop_iff:
  "(fst (scan_loop v answers st) = Inr True) =
     (visits v answers st \<noteq> [] \<and> snd (last (visits v answers st)))"
  by (induction answers st rule: scan_induct [where v = v])
     (auto simp: visits_steps scan_loop_steps)
lemma raised_at_single:
  "raised_at [(rv, de)] =
     (rv = 0 \<and> (\<exists>d. de = Some d \<and> \<not> dot_name (d_name d) \<and> \<not> known_type (d_type d)))"
  by (cases de) (auto simp: raised_at_def)

lemma raised_at_Cons:
  "consumed \<noteq> [] \<Longrightarrow> raised_at (a # consumed) = raised_at consumed"
  by (simp add: raised_at_def)

lemma stopped_at_Cons:
  "stopped_at consumed calls \<Longrightarrow> stopped_at (a # consumed) (x # calls)"
  by (auto simp: stopped_at_def split: option.splits sum.splits prod.splits)

lemma scan_loop_consumed:
  "\<exists>consumed. answers = consumed @ snd (snd (scan_loop v answers st))
     \<and> (fst (scan_loop v answers st) = Inr True \<longrightarrow> stopped_at consumed (visits v answers st))
     \<and> (fst (scan_loop v answers st) = Inl (runtime ''fs-bad-type-error'') \<longleftrightarrow> raised_at consumed)"
proof (induction answers st rule: scan_induct [where v = v])
  case (Nil st)
  show ?case by (simp add: raised_at_def)
next
  case (Fail rv de rest st)
  then show ?case
    by (intro exI [of _ "[(rv, de)]"]) (simp add: scan_loop_steps raised_at_single)
next
  case (End rest st)
  show ?case
    by (intro exI [of _ "[(0, None)]"]) (simp add: scan_loop_steps raised_at_single)
next
  case (Dot d rest st)
  then obtain consumed where c: "rest = consumed @ snd (snd (scan_loop v rest st))"
    "fst (scan_loop v rest st) = Inr True \<longrightarrow> stopped_at consumed (visits v rest st)"
    "fst (scan_loop v rest st) = Inl (runtime ''fs-bad-type-error'') \<longleftrightarrow> raised_at consumed"
    by blast
  have r: "raised_at ((0, Some d) # consumed) = raised_at consumed"
    using Dot(1) by (cases "consumed = []") (simp_all add: raised_at_Cons raised_at_single, simp add: raised_at_def)
  have s: "stopped_at consumed calls \<Longrightarrow> stopped_at ((0, Some d) # consumed) calls" for calls
    by (simp add: stopped_at_def)
  show ?case
    using Dot(1) c r s
    by (intro exI [of _ "(0, Some d) # consumed"]) (simp add: scan_loop_steps visits_steps)
next
  case (Bad d rest st)
  then show ?case
    by (intro exI [of _ "[(0, Some d)]"]) (simp add: scan_loop_steps raised_at_single)
next
  case (Stop d k rest st st')
  then show ?case
    by (intro exI [of _ "[(0, Some d)]"])
       (auto simp: scan_loop_steps visits_steps raised_at_single stopped_at_def
          dest: map_dirent_type_Inr)
next
  case (Go d k rest st st')
  then obtain consumed where c: "rest = consumed @ snd (snd (scan_loop v rest st'))"
    "fst (scan_loop v rest st') = Inr True \<longrightarrow> stopped_at consumed (visits v rest st')"
    "fst (scan_loop v rest st') = Inl (runtime ''fs-bad-type-error'') \<longleftrightarrow> raised_at consumed"
    by blast
  have "known_type (d_type d)" using Go(2) by (rule map_dirent_type_Inr)
  then have r: "raised_at ((0, Some d) # consumed) = raised_at consumed"
    by (cases "consumed = []") (simp_all add: raised_at_Cons raised_at_single, simp add: raised_at_def)
  show ?case
    using Go(1,2,3) c r stopped_at_Cons
    by (intro exI [of _ "(0, Some d) # consumed"]) (auto simp: scan_loop_steps visits_steps)
qed

lemma collect_entry_state:
  "fst (snd (scan_loop collect_entry answers acc)) =
     acc @ map fst (visits collect_entry answers acc)"
  by (induction answers acc rule: scan_induct [where v = collect_entry])
     (simp_all add: scan_loop_steps visits_steps collect_entry_def)

lemma collect_entry_bad:
  "clean answers \<Longrightarrow> \<exists>d. (0, Some d) \<in> set answers \<and> \<not> dot_name (d_name d) \<and> \<not> known_type (d_type d)
     \<Longrightarrow> fst (scan_loop collect_entry answers acc) = Inl (runtime ''fs-bad-type-error'')"
  by (induction answers acc rule: scan_induct [where v = collect_entry])
     (auto simp: scan_loop_steps clean_def collect_entry_def dest: map_dirent_type_Inr)

lemma collect_entry_good:
  "clean answers \<Longrightarrow> \<forall>d. (0, Some d) \<in> set answers \<longrightarrow> dot_name (d_name d) \<or> known_type (d_type d)
     \<Longrightarrow> scan_loop collect_entry answers acc = (Inr False, acc @ listed answers, [])"
  by (induction answers acc rule: scan_induct [where v = collect_entry])
     (auto simp: scan_loop_steps clean_def collect_entry_def listed_def)
text \<open>
  Claim C6. Each of the eight type codes maps to its own kind (\<^verbatim>\<open>DT_BLK\<close>, 6, to
  block device; \<^verbatim>\<open>DT_CHR\<close>, 2, to character device; \<^verbatim>\<open>DT_DIR\<close>, 4, to directory;
  \<^verbatim>\<open>DT_FIFO\<close>, 1, to named pipe; \<^verbatim>\<open>DT_LNK\<close>, 10, to symbolic link; \<^verbatim>\<open>DT_REG\<close>, 8, to
  regular file; \<^verbatim>\<open>DT_SOCK\<close>, 12, to socket; \<^verbatim>\<open>DT_UNKNOWN\<close>, 0, to unknown), no code
  maps to any other kind, and every other code raises the bad-type error. In the visitor form, for every visitor, stream and state: running with
  the logging visitor changes nothing but the record; every entry handed to the visitor
  is not a dot entry and is an answer of the stream with its type mapped; the visitor is
  not called again once it has returned true; the scan returns true exactly when the
  last call returned true, and then the last answer read is that entry, so that the
  answers behind it stay unread; the bad-type error is raised exactly when the last
  answer read is an entry, not a dot entry, whose type has no kind. In the collecting
  form no listed entry is a dot entry and each is an answer with its type mapped; on a
  stream without read failures an entry (not a dot entry) with an unknown type makes the
  call raise the bad-type error, and without such an entry every other entry is listed.
\<close>

theorem scan_directory_correct:
  "map_dirent_type_to_kind DT_BLK = Inr block_device
   \<and> map_dirent_type_to_kind DT_CHR = Inr character_device
   \<and> map_dirent_type_to_kind DT_DIR = Inr directory
   \<and> map_dirent_type_to_kind DT_FIFO = Inr named_pipe
   \<and> map_dirent_type_to_kind DT_LNK = Inr symbolic_link
   \<and> map_dirent_type_to_kind DT_REG = Inr regular_file
   \<and> map_dirent_type_to_kind DT_SOCK = Inr socket
   \<and> map_dirent_type_to_kind DT_UNKNOWN = Inr unknown
   \<and> (map_dirent_type_to_kind t0 = Inr k0 \<longleftrightarrow>
        t0 = 6 \<and> k0 = block_device \<or> t0 = 2 \<and> k0 = character_device
        \<or> t0 = 4 \<and> k0 = directory \<or> t0 = 1 \<and> k0 = named_pipe
        \<or> t0 = 10 \<and> k0 = symbolic_link \<or> t0 = 8 \<and> k0 = regular_file
        \<or> t0 = 12 \<and> k0 = socket \<or> t0 = 0 \<and> k0 = unknown)
   \<and> (map_dirent_type_to_kind t0 = Inl e0 \<longleftrightarrow>
        e0 = runtime ''fs-bad-type-error'' \<and> t0 \<notin> {0, 1, 2, 4, 6, 8, 10, 12})
   \<and> known_type t0 = (t0 \<in> {0, 1, 2, 4, 6, 8, 10, 12})
   \<and> dot_name n0 = (n0 = ''.'' \<or> n0 = ''..'')
   \<and> entry_of d0 k0 = \<lparr>entry_inode = d_ino d0, entry_name = d_name d0, entry_type = k0\<rparr>
   \<and> (known_type t \<longrightarrow> (\<exists>k. map_dirent_type_to_kind t = Inr k))
   \<and> (\<not> known_type u \<longrightarrow> map_dirent_type_to_kind u = Inl (runtime ''fs-bad-type-error''))
   \<and> (UNIV :: kind set) =
       {block_device, character_device, directory, named_pipe, symbolic_link,
        regular_file, socket, unknown}
   \<and> (scan_directory (Some answers) (logging v) ([], st) = (res, (calls, st'), remaining) \<longrightarrow>
        scan_directory (Some answers) v st = (res, st', remaining)
        \<and> (\<forall>x\<in>set calls. \<not> dot_name (entry_name (fst x))
              \<and> (\<exists>d k. (0, Some d) \<in> set answers
                    \<and> map_dirent_type_to_kind (d_type d) = Inr k \<and> fst x = entry_of d k))
        \<and> (\<forall>x\<in>set (butlast calls). \<not> snd x)
        \<and> (res = Inr True \<longleftrightarrow> calls \<noteq> [] \<and> snd (last calls))
        \<and> (\<exists>consumed. answers = consumed @ remaining
              \<and> (res = Inr True \<longrightarrow> stopped_at consumed calls)
              \<and> (res = Inl (runtime ''fs-bad-type-error'') \<longleftrightarrow> raised_at consumed)))
   \<and> (scan_directory_all (Some answers1) = Inr entries \<longrightarrow>
        (\<forall>e\<in>set entries. \<not> dot_name (entry_name e)
           \<and> (\<exists>d k. (0, Some d) \<in> set answers1
                 \<and> map_dirent_type_to_kind (d_type d) = Inr k \<and> e = entry_of d k)))
   \<and> (clean answers2
        \<and> (\<exists>d. (0, Some d) \<in> set answers2 \<and> \<not> dot_name (d_name d) \<and> \<not> known_type (d_type d)) \<longrightarrow>
        scan_directory_all (Some answers2) = Inl (runtime ''fs-bad-type-error''))
   \<and> (clean answers3
        \<and> (\<forall>d. (0, Some d) \<in> set answers3 \<longrightarrow> dot_name (d_name d) \<or> known_type (d_type d)) \<longrightarrow>
        scan_directory_all (Some answers3) = Inr (listed answers3))"
proof (intro conjI impI)
  show "map_dirent_type_to_kind DT_BLK = Inr block_device"
    "map_dirent_type_to_kind DT_CHR = Inr character_device"
    "map_dirent_type_to_kind DT_DIR = Inr directory"
    "map_dirent_type_to_kind DT_FIFO = Inr named_pipe"
    "map_dirent_type_to_kind DT_LNK = Inr symbolic_link"
    "map_dirent_type_to_kind DT_REG = Inr regular_file"
    "map_dirent_type_to_kind DT_SOCK = Inr socket"
    "map_dirent_type_to_kind DT_UNKNOWN = Inr unknown"
    by (rule map_dirent_type_each)+
next
  show "map_dirent_type_to_kind t0 = Inr k0 \<longleftrightarrow>
        t0 = 6 \<and> k0 = block_device \<or> t0 = 2 \<and> k0 = character_device
        \<or> t0 = 4 \<and> k0 = directory \<or> t0 = 1 \<and> k0 = named_pipe
        \<or> t0 = 10 \<and> k0 = symbolic_link \<or> t0 = 8 \<and> k0 = regular_file
        \<or> t0 = 12 \<and> k0 = socket \<or> t0 = 0 \<and> k0 = unknown"
    using map_dirent_type_iff [of t0 k0] by (simp add: dt_consts)
next
  show "map_dirent_type_to_kind t0 = Inl e0 \<longleftrightarrow>
        e0 = runtime ''fs-bad-type-error'' \<and> t0 \<notin> {0, 1, 2, 4, 6, 8, 10, 12}"
    by (auto simp: map_dirent_type_to_kind_def dt_consts split: if_splits)
next
  show "known_type t0 = (t0 \<in> {0, 1, 2, 4, 6, 8, 10, 12})"
    by (auto simp: known_type_def dt_consts)
next
  show "dot_name n0 = (n0 = ''.'' \<or> n0 = ''..'')"
    by (simp add: dot_name_def)
next
  show "entry_of d0 k0 = \<lparr>entry_inode = d_ino d0, entry_name = d_name d0, entry_type = k0\<rparr>"
    by (simp add: entry_of_def)
next
  assume "known_type t"
  then show "\<exists>k. map_dirent_type_to_kind t = Inr k" by (rule map_dirent_type_known)
next
  assume "\<not> known_type u"
  then show "map_dirent_type_to_kind u = Inl (runtime ''fs-bad-type-error'')"
    by (rule map_dirent_type_bad)
next
  show "(UNIV :: kind set) =
       {block_device, character_device, directory, named_pipe, symbolic_link,
        regular_file, socket, unknown}"
    by (rule kind_UNIV)
next
  assume run: "scan_directory (Some answers) (logging v) ([], st) = (res, (calls, st'), remaining)"
  obtain r s m where plain: "scan_loop v answers st = (r, s, m)"
    by (cases "scan_loop v answers st")
  from run have eq: "res = r" "calls = visits v answers st" "st' = s" "remaining = m"
    by (simp_all add: scan_directory_def scan_loop_logging plain)
  show "scan_directory (Some answers) v st = (res, st', remaining)"
    by (simp add: scan_directory_def plain eq)
  show "\<forall>x\<in>set calls. \<not> dot_name (entry_name (fst x))
      \<and> (\<exists>d k. (0, Some d) \<in> set answers
            \<and> map_dirent_type_to_kind (d_type d) = Inr k \<and> fst x = entry_of d k)"
    unfolding eq using visits_not_dot [of _ v answers st] visits_source [of _ v answers st]
    by blast
  show "\<forall>x\<in>set (butlast calls). \<not> snd x"
    unfolding eq using visits_butlast [of _ v answers st] by blast
  show "res = Inr True \<longleftrightarrow> calls \<noteq> [] \<and> snd (last calls)"
    using scan_loop_stop_iff [of v answers st] by (simp add: eq plain)
  show "\<exists>consumed. answers = consumed @ remaining
      \<and> (res = Inr True \<longrightarrow> stopped_at consumed calls)
      \<and> (res = Inl (runtime ''fs-bad-type-error'') \<longleftrightarrow> raised_at consumed)"
    using scan_loop_consumed [of answers v st] by (simp add: eq plain)
next
  assume all: "scan_directory_all (Some answers1) = Inr entries"
  obtain r s m where plain: "scan_loop collect_entry answers1 [] = (r, s, m)"
    by (cases "scan_loop collect_entry answers1 []")
  have "s = map fst (visits collect_entry answers1 [])"
    using collect_entry_state [of answers1 "[]"] by (simp add: plain)
  moreover from all have "entries = s"
    by (cases r) (simp_all add: scan_directory_all_def scan_directory_def plain)
  ultimately have "entries = map fst (visits collect_entry answers1 [])" by simp
  then show "\<forall>e\<in>set entries. \<not> dot_name (entry_name e)
      \<and> (\<exists>d k. (0, Some d) \<in> set answers1
            \<and> map_dirent_type_to_kind (d_type d) = Inr k \<and> e = entry_of d k)"
    using visits_not_dot [of _ collect_entry answers1 "[]"]
      visits_source [of _ collect_entry answers1 "[]"]
    by auto
next
  assume "clean answers2
      \<and> (\<exists>d. (0, Some d) \<in> set answers2 \<and> \<not> dot_name (d_name d) \<and> \<not> known_type (d_type d))"
  then have "fst (scan_loop collect_entry answers2 []) = Inl (runtime ''fs-bad-type-error'')"
    by (intro collect_entry_bad) simp_all
  then show "scan_directory_all (Some answers2) = Inl (runtime ''fs-bad-type-error'')"
    by (cases "scan_loop collect_entry answers2 []")
       (simp add: scan_directory_all_def scan_directory_def)
next
  assume "clean answers3
      \<and> (\<forall>d. (0, Some d) \<in> set answers3 \<longrightarrow> dot_name (d_name d) \<or> known_type (d_type d))"
  then have "scan_loop collect_entry answers3 [] = (Inr False, [] @ listed answers3, [])"
    by (intro collect_entry_good) simp_all
  then show "scan_directory_all (Some answers3) = Inr (listed answers3)"
    by (simp add: scan_directory_all_def scan_directory_def)
qed

theorem scan_directory_correct_witness:
  "known_type DT_DIR \<and> \<not> known_type 14
   \<and> map_dirent_type_to_kind 6 = Inr block_device
   \<and> map_dirent_type_to_kind 10 = Inr symbolic_link
   \<and> map_dirent_type_to_kind 14 = Inl (runtime ''fs-bad-type-error'')
   \<and> scan_directory (Some example_stream) (logging stop_at_directory) ([], 0) =
       (Inr True,
        ([(\<lparr>entry_inode = 7, entry_name = ''notes'', entry_type = regular_file\<rparr>, False),
          (\<lparr>entry_inode = 9, entry_name = ''sub'', entry_type = directory\<rparr>, True)], 2),
        [(0, Some \<lparr>d_ino = 11, d_name = ''gone'', d_type = 14\<rparr>)])
   \<and> scan_directory (Some example_stream) stop_at_directory 0 =
       (Inr True, 2, [(0, Some \<lparr>d_ino = 11, d_name = ''gone'', d_type = 14\<rparr>)])
   \<and> scan_directory_all (Some (take 4 example_stream)) =
       Inr [\<lparr>entry_inode = 7, entry_name = ''notes'', entry_type = regular_file\<rparr>,
            \<lparr>entry_inode = 9, entry_name = ''sub'', entry_type = directory\<rparr>]
   \<and> clean example_stream
   \<and> (\<exists>d. (0, Some d) \<in> set example_stream \<and> \<not> dot_name (d_name d) \<and> \<not> known_type (d_type d))
   \<and> scan_directory_all (Some example_stream) = Inl (runtime ''fs-bad-type-error'')
   \<and> clean (take 4 example_stream)
   \<and> scan_directory_all (Some (take 4 example_stream)) = Inr (listed (take 4 example_stream))"
proof -
  let ?calls = "[(\<lparr>entry_inode = 7, entry_name = ''notes'', entry_type = regular_file\<rparr>, False),
      (\<lparr>entry_inode = 9, entry_name = ''sub'', entry_type = directory\<rparr>, True)]"
  let ?gone = "\<lparr>d_ino = 11, d_name = ''gone'', d_type = 14\<rparr>"
  have k: "known_type DT_DIR" "\<not> known_type 14"
    by (simp_all add: known_type_def dt_consts)
  have run: "scan_directory (Some example_stream) (logging stop_at_directory) ([], 0) =
      (Inr True, (?calls, 2), [(0, Some ?gone)])"
    by code_simp
  have all: "scan_directory_all (Some (take 4 example_stream)) =
      Inr [\<lparr>entry_inode = 7, entry_name = ''notes'', entry_type = regular_file\<rparr>,
           \<lparr>entry_inode = 9, entry_name = ''sub'', entry_type = directory\<rparr>]"
    by code_simp
  have c: "clean example_stream" "clean (take 4 example_stream)"
    by (simp_all add: clean_def example_stream_def)
  have bad: "\<exists>d. (0, Some d) \<in> set example_stream \<and> \<not> dot_name (d_name d) \<and> \<not> known_type (d_type d)"
    by (intro exI [of _ ?gone]) (simp add: example_stream_def dot_name_def k)
  have good: "\<forall>d. (0, Some d) \<in> set (take 4 example_stream) \<longrightarrow>
      dot_name (d_name d) \<or> known_type (d_type d)"
    by (auto simp: example_stream_def dot_name_def known_type_def)
  have "map_dirent_type_to_kind 6 = Inr block_device \<longleftrightarrow>
        (6 :: 8 word) = 6 \<and> block_device = block_device
        \<or> (6 :: 8 word) = 2 \<and> block_device = character_device
        \<or> (6 :: 8 word) = 4 \<and> block_device = directory
        \<or> (6 :: 8 word) = 1 \<and> block_device = named_pipe
        \<or> (6 :: 8 word) = 10 \<and> block_device = symbolic_link
        \<or> (6 :: 8 word) = 8 \<and> block_device = regular_file
        \<or> (6 :: 8 word) = 12 \<and> block_device = socket
        \<or> (6 :: 8 word) = 0 \<and> block_device = unknown"
    by (rule scan_directory_correct [where ?t0.0 = 6 and ?k0.0 = block_device,
        THEN conjunct2, THEN conjunct2, THEN conjunct2, THEN conjunct2, THEN conjunct2, THEN conjunct2, THEN conjunct2, THEN conjunct2, THEN conjunct1])
  then have m6: "map_dirent_type_to_kind 6 = Inr block_device" by simp
  have "map_dirent_type_to_kind DT_LNK = Inr symbolic_link"
    by (rule scan_directory_correct [THEN conjunct2, THEN conjunct2, THEN conjunct2, THEN conjunct2, THEN conjunct1])
  then have m10: "map_dirent_type_to_kind 10 = Inr symbolic_link" by (simp add: DT_LNK_def)
  have "map_dirent_type_to_kind 14 = Inl (runtime ''fs-bad-type-error'') \<longleftrightarrow>
        runtime ''fs-bad-type-error'' = runtime ''fs-bad-type-error''
        \<and> (14 :: 8 word) \<notin> {0, 1, 2, 4, 6, 8, 10, 12}"
    by (rule scan_directory_correct [where ?t0.0 = 14 and ?e0.0 = "runtime ''fs-bad-type-error''",
        THEN conjunct2, THEN conjunct2, THEN conjunct2, THEN conjunct2, THEN conjunct2, THEN conjunct2, THEN conjunct2, THEN conjunct2, THEN conjunct2, THEN conjunct1])
  then have m14: "map_dirent_type_to_kind 14 = Inl (runtime ''fs-bad-type-error'')" by simp
  note t = scan_directory_correct [where t = DT_DIR and u = 14 and answers = example_stream
      and v = stop_at_directory and st = 0 and res = "Inr True" and calls = ?calls and st' = 2
      and remaining = "[(0, Some ?gone)]" and ?answers1.0 = "take 4 example_stream"
      and ?answers2.0 = example_stream and ?answers3.0 = "take 4 example_stream"
      and ?t0.0 = 0 and ?k0.0 = unknown and ?e0.0 = "runtime []" and ?n0.0 = "''.''"
      and ?d0.0 = ?gone]
  show ?thesis
    using t k run all c bad good m6 m10 m14 by blast
qed





lemma partition_point_correct:
  assumes "first + len \<le> length xs"
    and "\<And>i j. first \<le> i \<Longrightarrow> i < j \<Longrightarrow> j < first + len \<Longrightarrow> pred (xs ! j) \<Longrightarrow> pred (xs ! i)"
  shows "first \<le> partition_point pred xs first len
    \<and> partition_point pred xs first len \<le> first + len
    \<and> (\<forall>i. first \<le> i \<and> i < partition_point pred xs first len \<longrightarrow> pred (xs ! i))
    \<and> (\<forall>i. partition_point pred xs first len \<le> i \<and> i < first + len \<longrightarrow> \<not> pred (xs ! i))"
  using assms
proof (induction pred xs first len rule: partition_point.induct)
  case (1 pred xs first len)
  show ?case
  proof (cases "len = 0")
    case True
    then show ?thesis by (auto simp: partition_point.simps)
  next
    case False
    define half where "half = len div 2"
    define middle where "middle = first + half"
    have half: "half < len" using False by (simp add: half_def)
    show ?thesis
    proof (cases "pred (xs ! middle)")
      case True
      have step: "partition_point pred xs first len =
          partition_point pred xs (middle + 1) (len - half - 1)"
        using False True
        by (subst partition_point.simps) (simp add: half_def middle_def Let_def)
      have ih: "middle + 1 \<le> partition_point pred xs (middle + 1) (len - half - 1)
        \<and> partition_point pred xs (middle + 1) (len - half - 1) \<le> middle + 1 + (len - half - 1)
        \<and> (\<forall>i. middle + 1 \<le> i \<and> i < partition_point pred xs (middle + 1) (len - half - 1)
              \<longrightarrow> pred (xs ! i))
        \<and> (\<forall>i. partition_point pred xs (middle + 1) (len - half - 1) \<le> i
              \<and> i < middle + 1 + (len - half - 1) \<longrightarrow> \<not> pred (xs ! i))"
      proof (rule "1.IH"(1) [OF False half_def middle_def True])
        show "middle + 1 + (len - half - 1) \<le> length xs"
          using "1.prems"(1) half by (simp add: middle_def)
      next
        fix i j
        assume "middle + 1 \<le> i" "i < j" "j < middle + 1 + (len - half - 1)" "pred (xs ! j)"
        then show "pred (xs ! i)"
          using "1.prems"(2) [of i j] half by (simp add: middle_def)
      qed
      have below: "pred (xs ! i)" if "first \<le> i" "i \<le> middle" for i
      proof (cases "i = middle")
        case True
        then show ?thesis using \<open>pred (xs ! middle)\<close> by simp
      next
        case False
        then show ?thesis
          using "1.prems"(2) [of i middle] that half \<open>pred (xs ! middle)\<close>
          by (simp add: middle_def)
      qed
      have "middle + 1 + (len - half - 1) = first + len"
        using half by (simp add: middle_def)
      have left: "pred (xs ! i)"
        if "first \<le> i" "i < partition_point pred xs (middle + 1) (len - half - 1)" for i
      proof (cases "i \<le> middle")
        case True
        with that(1) show ?thesis by (rule below)
      next
        case False
        then have "middle + 1 \<le> i" by simp
        with ih that(2) show ?thesis by blast
      qed
      have "first \<le> partition_point pred xs (middle + 1) (len - half - 1)"
        using ih by (simp add: middle_def)
      with ih left \<open>middle + 1 + (len - half - 1) = first + len\<close> show ?thesis
        unfolding step by simp
    next
      case notpred: False
      have step: "partition_point pred xs first len = partition_point pred xs first half"
        using False notpred
        by (subst partition_point.simps) (simp add: half_def middle_def Let_def)
      have ih: "first \<le> partition_point pred xs first half
        \<and> partition_point pred xs first half \<le> first + half
        \<and> (\<forall>i. first \<le> i \<and> i < partition_point pred xs first half \<longrightarrow> pred (xs ! i))
        \<and> (\<forall>i. partition_point pred xs first half \<le> i \<and> i < first + half \<longrightarrow> \<not> pred (xs ! i))"
      proof (rule "1.IH"(2) [OF False half_def middle_def notpred])
        show "first + half \<le> length xs"
          using "1.prems"(1) half by simp
      next
        fix i j
        assume "first \<le> i" "i < j" "j < first + half" "pred (xs ! j)"
        then show "pred (xs ! i)"
          using "1.prems"(2) [of i j] half by simp
      qed
      have above: "\<not> pred (xs ! i)" if "middle \<le> i" "i < first + len" for i
      proof (cases "i = middle")
        case True
        then show ?thesis using notpred by simp
      next
        case False
        then show ?thesis
          using "1.prems"(2) [of middle i] that notpred by (auto simp: middle_def)
      qed
      have right: "\<not> pred (xs ! i)"
        if "partition_point pred xs first half \<le> i" "i < first + len" for i
      proof (cases "i < middle")
        case True
        with ih that(1) show ?thesis by (simp add: middle_def)
      next
        case False
        then have "middle \<le> i" by simp
        then show ?thesis using that(2) by (rule above)
      qed
      have "partition_point pred xs first half \<le> first + len"
        using ih half by simp
      with ih right show ?thesis
        unfolding step by simp
    qed
  qed
qed

lemma root_key_inj: "root_key r = root_key r' \<Longrightarrow> r = r'"
  by (cases r; cases r') (simp add: root_key_def)

lemma root_key_fst_mono: "root_key r \<le> root_key r' \<Longrightarrow> fst r \<le> fst r'"
  by (auto simp: root_key_def less_eq_prod_def)

lemma root_key_le_iff:
  "root_key a \<le> root_key b \<longleftrightarrow>
     fst a < fst b
     \<or> fst a = fst b
        \<and> (length (snd a) < length (snd b)
             \<or> length (snd a) = length (snd b) \<and> snd a \<le> snd b)"
  by (auto simp: root_key_def less_eq_prod_def)

lemma sorted_root_key_iff:
  "sorted (map root_key xs) \<longleftrightarrow>
     sorted_wrt (\<lambda>a b. fst a < fst b
        \<or> fst a = fst b
           \<and> (length (snd a) < length (snd b)
                \<or> length (snd a) = length (snd b) \<and> snd a \<le> snd b)) xs"
  by (simp add: sorted_map root_key_le_iff)

lemma sort_roots_sorted:
  "sorted (map root_key (sort_roots roots))" "mset (sort_roots roots) = mset roots"
  "set (sort_roots roots) = set roots" "length (sort_roots roots) = length roots"
  by (simp_all add: sort_roots_def)

lemma sort_roots_unique:
  assumes "mset ys = mset roots" and "sorted (map root_key ys)"
  shows "ys = sort_roots roots"
proof -
  have "filter (\<lambda>x. root_key k = root_key x) ys = filter (\<lambda>x. root_key k = root_key x) roots" for k
  proof -
    have eq: "(\<lambda>x. root_key k = root_key x) = HOL.eq k"
      by (auto dest: root_key_inj)
    show ?thesis
      unfolding eq using assms(1) by (simp add: replicate_count_mset_eq_filter_eq [symmetric])
  qed
  then have "sort_key root_key roots = ys"
    using assms by (intro properties_for_sort_key) simp_all
  then show ?thesis by (simp add: sort_roots_def)
qed

text \<open>The lower bound in a list of roots sorted by their keys.\<close>

lemma lower_bound_sorted:
  fixes xs :: "root list" and ino :: "64 word"
  assumes "sorted (map root_key xs)"
  defines "p \<equiv> partition_point (\<lambda>r. fst r < ino) xs 0 (length xs)"
  shows "p \<le> length xs"
    and "\<And>i. i < p \<Longrightarrow> fst (xs ! i) < ino"
    and "\<And>i. p \<le> i \<Longrightarrow> i < length xs \<Longrightarrow> \<not> fst (xs ! i) < ino"
proof -
  have mono: "fst (xs ! i) \<le> fst (xs ! j)" if "i < j" "j < length xs" for i j
  proof -
    have "map root_key xs ! i \<le> map root_key xs ! j"
      using assms(1) that by (intro sorted_nth_mono) simp_all
    then show ?thesis using that by (simp add: root_key_fst_mono)
  qed
  have "0 \<le> p \<and> p \<le> 0 + length xs
      \<and> (\<forall>i. 0 \<le> i \<and> i < p \<longrightarrow> fst (xs ! i) < ino)
      \<and> (\<forall>i. p \<le> i \<and> i < 0 + length xs \<longrightarrow> \<not> fst (xs ! i) < ino)"
    unfolding p_def
  proof (rule partition_point_correct)
    show "0 + length xs \<le> length xs" by simp
  next
    fix i j
    assume "0 \<le> i" "i < j" "j < 0 + length xs" "fst (xs ! j) < ino"
    then show "fst (xs ! i) < ino" using mono [of i j] by simp
  qed
  then show "p \<le> length xs" "\<And>i. i < p \<Longrightarrow> fst (xs ! i) < ino"
    "\<And>i. p \<le> i \<Longrightarrow> i < length xs \<Longrightarrow> \<not> fst (xs ! i) < ino"
    by simp_all
qed

lemma lower_bound_found:
  fixes xs :: "root list" and ino :: "64 word"
  assumes "sorted (map root_key xs)" and "r \<in> set xs" and "fst r = ino"
  defines "p \<equiv> partition_point (\<lambda>r. fst r < ino) xs 0 (length xs)"
  shows "p \<noteq> length xs \<and> fst (xs ! p) = ino \<and> xs ! p \<in> set xs
    \<and> (\<forall>r'\<in>set xs. fst r' = ino \<longrightarrow> root_key (xs ! p) \<le> root_key r')"
proof -
  note lb = lower_bound_sorted [OF assms(1), where ino = ino, folded p_def]
  have least: "root_key (xs ! p) \<le> root_key r'" "p < length xs"
    if mem: "r' \<in> set xs" and eq: "fst r' = ino" for r'
  proof -
    obtain j where j: "j < length xs" "xs ! j = r'"
      using mem by (auto simp: in_set_conv_nth)
    have "\<not> j < p" using lb(2) [of j] j eq by auto
    then have pj: "p \<le> j" by simp
    with j show "p < length xs" by simp
    have "map root_key xs ! p \<le> map root_key xs ! j"
      using assms(1) pj j by (intro sorted_nth_mono) simp_all
    then show "root_key (xs ! p) \<le> root_key r'" using pj j by simp
  qed
  have p: "p < length xs" using least(2) [OF assms(2,3)] .
  have "fst (xs ! p) \<le> ino"
    using least(1) [OF assms(2,3)] assms(3) root_key_fst_mono by blast
  moreover have "\<not> fst (xs ! p) < ino" using lb(3) [of p] p by simp
  ultimately have "fst (xs ! p) = ino" by simp
  with p least show ?thesis by auto
qed

lemma lower_bound_missing:
  fixes xs :: "root list" and ino :: "64 word"
  assumes "sorted (map root_key xs)" and "\<forall>r\<in>set xs. fst r \<noteq> ino"
  shows "\<not> (partition_point (\<lambda>r. fst r < ino) xs 0 (length xs) \<noteq> length xs
           \<and> fst (xs ! partition_point (\<lambda>r. fst r < ino) xs 0 (length xs)) = ino)"
proof
  let ?p = "partition_point (\<lambda>r. fst r < ino) xs 0 (length xs)"
  assume a: "?p \<noteq> length xs \<and> fst (xs ! ?p) = ino"
  have "?p \<le> length xs" by (rule lower_bound_sorted(1) [OF assms(1)])
  with a have "?p < length xs" by simp
  then have "xs ! ?p \<in> set xs" by simp
  with assms(2) a show False by blast
qed
lemma find_roots_Inr:
  "find_roots w dev ms acc = Inr roots \<Longrightarrow>
     \<exists>new. roots = acc @ new
       \<and> map snd new = map mount_path (filter (\<lambda>m. mount_device m = dev) ms)
       \<and> (\<forall>r\<in>set new. os_fstatat w (c_str (snd r)) = Some (fst r))"
proof (induction ms arbitrary: acc)
  case Nil
  then show ?case by simp
next
  case (Cons m ms)
  show ?case
  proof (cases "mount_device m = dev")
    case False
    with Cons show ?thesis by simp
  next
    case True
    with Cons.prems obtain i where i: "os_fstatat w (c_str (mount_path m)) = Some i"
      and rest: "find_roots w dev ms (acc @ [(i, mount_path m)]) = Inr roots"
      by (auto split: option.splits)
    from Cons.IH [OF rest] obtain new where new: "roots = (acc @ [(i, mount_path m)]) @ new"
      "map snd new = map mount_path (filter (\<lambda>m. mount_device m = dev) ms)"
      "\<forall>r\<in>set new. os_fstatat w (c_str (snd r)) = Some (fst r)"
      by blast
    show ?thesis
      using True i new by (intro exI [of _ "(i, mount_path m) # new"]) simp
  qed
qed

lemma find_roots_cong:
  "os_fstatat w' = os_fstatat w \<Longrightarrow> find_roots w' dev ms acc = find_roots w dev ms acc"
  by (induction ms arbitrary: acc) (simp_all split: option.splits)

lemma location_eq:
  assumes "dir_fd origin \<noteq> AT_FDCWD"
    and "os_fstat w (dir_fd origin) = Some (dev, ino)"
    and "find_mounts w = Inr mounts"
    and "find_roots w dev mounts [] = Inr roots"
  shows "location w origin fuel =
     (if \<exists>r\<in>set roots. fst r = ino
      then Some (Inr (pathname_normalize (snd (lower_root roots ino))))
      else (case context_openat w (origin_context origin) (dir_fd origin) ''..'' walk_flags of
              Inl e \<Rightarrow> Some (Inl e)
            | Inr current \<Rightarrow>
                (case inode w current of
                   Inl e \<Rightarrow> Some (Inl e)
                 | Inr next \<Rightarrow>
                     walk fuel w (origin_context origin) (sort_roots roots) (dev, ino) current next [])))"
proof -
  let ?xs = "sort_roots roots"
  let ?p = "partition_point (\<lambda>r. fst r < ino) ?xs 0 (length ?xs)"
  have unfold: "location w origin fuel =
     (if ?p \<noteq> length ?xs \<and> fst (?xs ! ?p) = ino
      then Some (Inr (pathname_normalize (snd (?xs ! ?p))))
      else (case context_openat w (origin_context origin) (dir_fd origin) ''..'' walk_flags of
              Inl e \<Rightarrow> Some (Inl e)
            | Inr current \<Rightarrow>
                (case inode w current of
                   Inl e \<Rightarrow> Some (Inl e)
                 | Inr next \<Rightarrow>
                     walk fuel w (origin_context origin) ?xs (dev, ino) current next [])))"
    using assms by (simp add: location_def inode_def Let_def)
  show ?thesis
  proof (cases "\<exists>r\<in>set roots. fst r = ino")
    case True
    then obtain r where "r \<in> set ?xs" "fst r = ino" by (auto simp: sort_roots_sorted)
    from lower_bound_found [OF sort_roots_sorted(1) this]
    have "?p \<noteq> length ?xs \<and> fst (?xs ! ?p) = ino" by simp
    then have c: "(?p \<noteq> length ?xs \<and> fst (?xs ! ?p) = ino) = True" by blast
    show ?thesis
      unfolding unfold c using True by (simp only: if_True lower_root_def sort_roots_sorted(4))
  next
    case False
    then have "\<forall>r\<in>set ?xs. fst r \<noteq> ino" by (simp add: sort_roots_sorted)
    from lower_bound_missing [OF sort_roots_sorted(1) this]
    have "\<not> (?p \<noteq> length ?xs \<and> fst (?xs ! ?p) = ino)" .
    then have c: "(?p \<noteq> length ?xs \<and> fst (?xs ! ?p) = ino) = False" by blast
    show ?thesis
      unfolding unfold c using False by (simp only: if_False)
  qed
qed

text \<open>
  Claim C3. For a resolved origin whose directory has device \<open>dev\<close> and inode \<open>ino\<close>,
  when the mount table parses to \<open>mounts\<close> and every mount point of the device can be
  examined: the roots are the mounts of that device, in the order of the table, each with
  the inode of its mount point and its decoded path; sorting them gives the one
  arrangement that ascends in (inode, length of the path, path), written out in the
  statement: a smaller inode first, for equal inodes the shorter path first, for equal
  lengths the path that is smaller byte by byte first; the binary search
  returns the lower bound of \<open>ino\<close> in it; \<open>location\<close> returns the normalized path of
  the root found there exactly when some root has the inode \<open>ino\<close>, and otherwise goes
  on by opening the parent directory. In the first case that root is the least of the
  roots with this inode, and the result is the same whatever \<^verbatim>\<open>openat\<close> and
  \<^verbatim>\<open>fdopendir\<close> would answer, with any fuel: no parent directory is visited.
\<close>

theorem location_mount_root:
  assumes "dir_fd origin \<noteq> AT_FDCWD"
    and "os_fstat w (dir_fd origin) = Some (dev, ino)"
    and "find_mounts w = Inr mounts"
    and "find_roots w dev mounts [] = Inr roots"
  shows "map snd roots = map mount_path (filter (\<lambda>m. mount_device m = dev) mounts)
    \<and> (\<forall>r\<in>set roots. os_fstatat w (c_str (snd r)) = Some (fst r))
    \<and> sorted (map root_key (sort_roots roots)) \<and> mset (sort_roots roots) = mset roots
    \<and> (\<forall>ys. mset ys = mset roots \<and> sorted (map root_key ys) \<longrightarrow> ys = sort_roots roots)
    \<and> root_key r0 = (fst r0, length (snd r0), snd r0)
    \<and> sorted_wrt (\<lambda>a b. fst a < fst b
          \<or> fst a = fst b
             \<and> (length (snd a) < length (snd b)
                  \<or> length (snd a) = length (snd b) \<and> snd a \<le> snd b)) (sort_roots roots)
    \<and> (\<forall>ys. mset ys = mset roots
          \<and> sorted_wrt (\<lambda>a b. fst a < fst b
                \<or> fst a = fst b
                   \<and> (length (snd a) < length (snd b)
                        \<or> length (snd a) = length (snd b) \<and> snd a \<le> snd b)) ys
          \<longrightarrow> ys = sort_roots roots)
    \<and> (\<forall>i<length roots.
          (fst (sort_roots roots ! i) < ino) =
          (i < partition_point (\<lambda>r. fst r < ino) (sort_roots roots) 0 (length roots)))
    \<and> location w origin fuel =
        (if \<exists>r\<in>set roots. fst r = ino
         then Some (Inr (pathname_normalize (snd (lower_root roots ino))))
         else (case context_openat w (origin_context origin) (dir_fd origin) ''..'' walk_flags of
                 Inl e \<Rightarrow> Some (Inl e)
               | Inr current \<Rightarrow>
                   (case inode w current of
                      Inl e \<Rightarrow> Some (Inl e)
                    | Inr next \<Rightarrow>
                        walk fuel w (origin_context origin) (sort_roots roots) (dev, ino)
                          current next [])))
    \<and> ((\<exists>r\<in>set roots. fst r = ino) \<longrightarrow>
          lower_root roots ino \<in> set roots \<and> fst (lower_root roots ino) = ino
          \<and> (\<forall>r'\<in>set roots. fst r' = ino \<longrightarrow> root_key (lower_root roots ino) \<le> root_key r')
          \<and> (\<forall>r'\<in>set roots. fst r' = ino \<longrightarrow>
                length (snd (lower_root roots ino)) < length (snd r')
                \<or> length (snd (lower_root roots ino)) = length (snd r')
                   \<and> snd (lower_root roots ino) \<le> snd r')
          \<and> (\<forall>fuel' f g. location (w\<lparr>os_openat := f, os_fdopendir := g\<rparr>) origin fuel' =
                Some (Inr (pathname_normalize (snd (lower_root roots ino))))))"
proof -
  let ?xs = "sort_roots roots"
  let ?p = "partition_point (\<lambda>r. fst r < ino) ?xs 0 (length roots)"
  from find_roots_Inr [OF assms(4)]
  have A: "map snd roots = map mount_path (filter (\<lambda>m. mount_device m = dev) mounts)"
    and B: "\<forall>r\<in>set roots. os_fstatat w (c_str (snd r)) = Some (fst r)"
    by auto
  have C: "sorted (map root_key ?xs)" "mset ?xs = mset roots"
    by (rule sort_roots_sorted)+
  have D: "\<forall>ys. mset ys = mset roots \<and> sorted (map root_key ys) \<longrightarrow> ys = ?xs"
    using sort_roots_unique by blast
  have K: "root_key r0 = (fst r0, length (snd r0), snd r0)"
    by (simp add: root_key_def)
  have C': "sorted_wrt (\<lambda>a b. fst a < fst b
          \<or> fst a = fst b
             \<and> (length (snd a) < length (snd b)
                  \<or> length (snd a) = length (snd b) \<and> snd a \<le> snd b)) ?xs"
    using C(1) by (simp only: sorted_root_key_iff)
  have D': "\<forall>ys. mset ys = mset roots
          \<and> sorted_wrt (\<lambda>a b. fst a < fst b
                \<or> fst a = fst b
                   \<and> (length (snd a) < length (snd b)
                        \<or> length (snd a) = length (snd b) \<and> snd a \<le> snd b)) ys
          \<longrightarrow> ys = ?xs"
    using D by (simp only: sorted_root_key_iff)
  have E: "\<forall>i<length roots. (fst (?xs ! i) < ino) = (i < ?p)"
  proof (intro allI impI)
    fix i assume i: "i < length roots"
    note lb = lower_bound_sorted [OF C(1), where ino = ino, unfolded sort_roots_sorted(4)]
    show "(fst (?xs ! i) < ino) = (i < ?p)"
      using lb(2) [of i] lb(3) [of i] i by (cases "i < ?p") simp_all
  qed
  have F: "location w origin fuel =
        (if \<exists>r\<in>set roots. fst r = ino
         then Some (Inr (pathname_normalize (snd (lower_root roots ino))))
         else (case context_openat w (origin_context origin) (dir_fd origin) ''..'' walk_flags of
                 Inl e \<Rightarrow> Some (Inl e)
               | Inr current \<Rightarrow>
                   (case inode w current of
                      Inl e \<Rightarrow> Some (Inl e)
                    | Inr next \<Rightarrow>
                        walk fuel w (origin_context origin) ?xs (dev, ino) current next [])))"
    by (rule location_eq [OF assms])
  have G: "lower_root roots ino \<in> set roots \<and> fst (lower_root roots ino) = ino
      \<and> (\<forall>r'\<in>set roots. fst r' = ino \<longrightarrow> root_key (lower_root roots ino) \<le> root_key r')
      \<and> (\<forall>r'\<in>set roots. fst r' = ino \<longrightarrow>
            length (snd (lower_root roots ino)) < length (snd r')
            \<or> length (snd (lower_root roots ino)) = length (snd r')
               \<and> snd (lower_root roots ino) \<le> snd r')
      \<and> (\<forall>fuel' f g. location (w\<lparr>os_openat := f, os_fdopendir := g\<rparr>) origin fuel' =
            Some (Inr (pathname_normalize (snd (lower_root roots ino)))))"
    if ex: "\<exists>r\<in>set roots. fst r = ino"
  proof -
    from ex obtain r where r: "r \<in> set ?xs" "fst r = ino" by (auto simp: sort_roots_sorted)
    from lower_bound_found [OF C(1) r]
    have low: "lower_root roots ino \<in> set roots" "fst (lower_root roots ino) = ino"
      "\<forall>r'\<in>set roots. fst r' = ino \<longrightarrow> root_key (lower_root roots ino) \<le> root_key r'"
      by (simp_all add: lower_root_def sort_roots_sorted)
    have "\<forall>r'\<in>set roots. fst r' = ino \<longrightarrow>
        length (snd (lower_root roots ino)) < length (snd r')
        \<or> length (snd (lower_root roots ino)) = length (snd r')
           \<and> snd (lower_root roots ino) \<le> snd r'"
    proof (intro ballI impI)
      fix r' assume r': "r' \<in> set roots" "fst r' = ino"
      with low(3) have "root_key (lower_root roots ino) \<le> root_key r'" by blast
      then show "length (snd (lower_root roots ino)) < length (snd r')
          \<or> length (snd (lower_root roots ino)) = length (snd r')
             \<and> snd (lower_root roots ino) \<le> snd r'"
        unfolding root_key_le_iff using low(2) r'(2) by auto
    qed
    note low this
    moreover have "location (w\<lparr>os_openat := f, os_fdopendir := g\<rparr>) origin fuel' =
        Some (Inr (pathname_normalize (snd (lower_root roots ino))))" for fuel' f g
    proof -
      let ?w = "w\<lparr>os_openat := f, os_fdopendir := g\<rparr>"
      have 1: "os_fstat ?w (dir_fd origin) = Some (dev, ino)" using assms(2) by simp
      have 2: "find_mounts ?w = Inr mounts" using assms(3) by (simp add: find_mounts_def)
      have 3: "find_roots ?w dev mounts [] = Inr roots"
        using assms(4) find_roots_cong [of ?w w dev mounts "[]"] by simp
      show ?thesis
        using location_eq [OF assms(1) 1 2 3, of fuel'] ex by simp
    qed
    ultimately show ?thesis by blast
  qed
  show ?thesis
    using A B C D K C' D' E F G by (intro conjI impI) blast+
qed

theorem location_mount_root_witness:
  "dir_fd (example_origin 5) \<noteq> AT_FDCWD
   \<and> os_fstat example_world (dir_fd (example_origin 5)) = Some (makedev 8 1, 2)
   \<and> find_mounts example_world = Inr example_mounts
   \<and> find_roots example_world (makedev 8 1) example_mounts [] = Inr example_roots
   \<and> (\<exists>r\<in>set example_roots. fst r = 2)
   \<and> sort_roots example_roots = [(2, ''/data''), (2, ''/mnt/data'')]
   \<and> lower_root example_roots 2 = (2, ''/data'')
   \<and> location example_world (example_origin 5) 0 = Some (Inr ''/data'')
   \<and> os_fstat bind_world (dir_fd (example_origin 5)) = Some (makedev 8 1, 2)
   \<and> find_mounts bind_world = Inr bind_mounts
   \<and> find_roots bind_world (makedev 8 1) bind_mounts [] = Inr [(2, ''/mnt/a''), (2, ''/srv'')]
   \<and> sort_roots [(2, ''/mnt/a''), (2, ''/srv'')] = [(2, ''/srv''), (2, ''/mnt/a'')]
   \<and> lower_root [(2, ''/mnt/a''), (2, ''/srv'')] 2 = (2, ''/srv'')
   \<and> location bind_world (example_origin 5) 0 = Some (Inr ''/srv'')"
proof -
  have h1: "dir_fd (example_origin 5) \<noteq> AT_FDCWD"
    by (simp add: dir_fd_def example_origin_def get_or_def AT_FDCWD_def)
  have h2: "os_fstat example_world (dir_fd (example_origin 5)) = Some (makedev 8 1, 2)"
    by (simp add: dir_fd_def example_origin_def get_or_def example_world_def)
  have h3: "find_mounts example_world = Inr example_mounts"
    by code_simp
  have h4: "find_roots example_world (makedev 8 1) example_mounts [] = Inr example_roots"
    by code_simp
  have ex: "\<exists>r\<in>set example_roots. fst r = 2"
    by (simp add: example_roots_def)
  have s: "sort_roots example_roots = [(2, ''/data''), (2, ''/mnt/data'')]"
    by code_simp
  have l: "lower_root example_roots 2 = (2, ''/data'')"
    by code_simp
  have n: "pathname_normalize ''/data'' = ''/data''"
    by code_simp
  note t = location_mount_root [OF h1 h2 h3 h4, of _ 0]
  have f: "location example_world (example_origin 5) 0 =
      (if \<exists>r\<in>set example_roots. fst r = 2
       then Some (Inr (pathname_normalize (snd (lower_root example_roots 2))))
       else (case context_openat example_world (origin_context (example_origin 5))
                   (dir_fd (example_origin 5)) ''..'' walk_flags of
               Inl e \<Rightarrow> Some (Inl e)
             | Inr current \<Rightarrow>
                 (case inode example_world current of
                    Inl e \<Rightarrow> Some (Inl e)
                  | Inr next \<Rightarrow>
                      walk 0 example_world (origin_context (example_origin 5))
                        (sort_roots example_roots) (makedev 8 1, 2) current next [])))"
    by (rule t [THEN conjunct2, THEN conjunct2, THEN conjunct2, THEN conjunct2, THEN conjunct2,
          THEN conjunct2, THEN conjunct2, THEN conjunct2, THEN conjunct2, THEN conjunct1])
  have r1: "location example_world (example_origin 5) 0 = Some (Inr ''/data'')"
    unfolding f using ex by (simp add: l n)
  have b2: "os_fstat bind_world (dir_fd (example_origin 5)) = Some (makedev 8 1, 2)"
    by (simp add: dir_fd_def example_origin_def get_or_def example_world_def bind_world_def)
  have b3: "find_mounts bind_world = Inr bind_mounts"
    by code_simp
  have b4: "find_roots bind_world (makedev 8 1) bind_mounts [] = Inr bind_roots"
    by code_simp
  have bex: "\<exists>r\<in>set bind_roots. fst r = 2"
    by (simp add: bind_roots_def)
  have bs: "sort_roots bind_roots = [(2, ''/srv''), (2, ''/mnt/a'')]"
    by code_simp
  have bl: "lower_root bind_roots 2 = (2, ''/srv'')"
    by code_simp
  have bn: "pathname_normalize ''/srv'' = ''/srv''"
    by code_simp
  note u = location_mount_root [OF h1 b2 b3 b4, of _ 0]
  have g: "location bind_world (example_origin 5) 0 =
      (if \<exists>r\<in>set bind_roots. fst r = 2
       then Some (Inr (pathname_normalize (snd (lower_root bind_roots 2))))
       else (case context_openat bind_world (origin_context (example_origin 5))
                   (dir_fd (example_origin 5)) ''..'' walk_flags of
               Inl e \<Rightarrow> Some (Inl e)
             | Inr current \<Rightarrow>
                 (case inode bind_world current of
                    Inl e \<Rightarrow> Some (Inl e)
                  | Inr next \<Rightarrow>
                      walk 0 bind_world (origin_context (example_origin 5))
                        (sort_roots bind_roots) (makedev 8 1, 2) current next [])))"
    by (rule u [THEN conjunct2, THEN conjunct2, THEN conjunct2, THEN conjunct2, THEN conjunct2,
          THEN conjunct2, THEN conjunct2, THEN conjunct2, THEN conjunct2, THEN conjunct1])
  have r2: "location bind_world (example_origin 5) 0 = Some (Inr ''/srv'')"
    unfolding g using bex by (simp add: bl bn)
  show ?thesis
    using h1 h2 h3 h4 ex s l r1 b2 b3 b4 bs bl r2
    by (simp add: bind_roots_def)
qed

text \<open>
  Claim C8, as the specification states it, says that a name beginning with a slash
  replaces the origin with the process root. The code replaces it with the origin of the
  working directory: for the path \<^verbatim>\<open>a\<close> under the origin with descriptor 5, joined with
  \<^verbatim>\<open>/etc\<close>, the new origin has no descriptor, resolves through \<^verbatim>\<open>AT_FDCWD\<close>, and its
  location is the working directory \<^verbatim>\<open>/home/u\<close> of the example system, not \<^verbatim>\<open>/\<close>.
\<close>

theorem path_joined_origin_counterexample:
  "path_origin (path_joined example_path ''/etc'') = origin_working (example_origin 5)
   \<and> origin_handle (path_origin (path_joined example_path ''/etc'')) = - 1
   \<and> dir_fd (path_origin (path_joined example_path ''/etc'')) = AT_FDCWD
   \<and> location example_world (path_origin (path_joined example_path ''/etc'')) 0
       = Some (Inr ''/home/u'')
   \<and> location example_world (path_origin (path_joined example_path ''/etc'')) 0
       \<noteq> Some (Inr ''/'')"
proof -
  have o: "path_origin (path_joined example_path ''/etc'') = origin_working (example_origin 5)"
    by (simp add: path_joined_def example_path_def)
  have d: "dir_fd (origin_working (example_origin 5)) = AT_FDCWD"
    by (simp add: dir_fd_def origin_working_def get_or_def)
  have "getcwd (os_getcwd example_world) = Inr ''/home/u''"
    by code_simp
  then have l: "location example_world (origin_working (example_origin 5)) 0 = Some (Inr ''/home/u'')"
    by (simp add: location_def d)
  show ?thesis
    unfolding o using d l by (simp add: origin_working_def)
qed

text \<open>
  Claim C8, amended. If the name begins with a slash, the joined path has the origin of
  the working directory in the context of \<open>p\<close> (no descriptor, resolving through
  \<^verbatim>\<open>AT_FDCWD\<close>) and the name as it is; otherwise it has the origin of \<open>p\<close> and the
  normalization of the pathname of \<open>p\<close>, a slash and the name. The follow flag is the one
  of \<open>p\<close> in both cases. (\<open>p\<close> is a value; nothing can modify it.)
\<close>

theorem path_joined_correct:
  "(take 1 n = ''/'' \<longrightarrow>
      path_joined p n =
        \<lparr>path_origin = origin_working (path_origin p), path_pathname = n,
         path_follow = path_follow p\<rparr>
      \<and> origin_handle (path_origin (path_joined p n)) = - 1
      \<and> dir_fd (path_origin (path_joined p n)) = AT_FDCWD
      \<and> origin_context (path_origin (path_joined p n)) = origin_context (path_origin p))
   \<and> (take 1 m \<noteq> ''/'' \<longrightarrow>
      path_joined p m =
        \<lparr>path_origin = path_origin p,
         path_pathname = pathname_normalize (path_pathname p @ ''/'' @ m),
         path_follow = path_follow p\<rparr>
      \<and> path_pathname (path_joined p m) = normalize_spec (path_pathname p @ ''/'' @ m))
   \<and> path_follow (path_joined p k) = path_follow p"
  by (simp add: path_joined_def origin_working_def dir_fd_def get_or_def
      pathname_normalize_refines)

theorem path_joined_correct_witness:
  "take 1 ''/etc'' = ''/'' \<and> take 1 ''b/./c'' \<noteq> ''/''
   \<and> path_joined example_path ''/etc'' =
       \<lparr>path_origin = origin_working (example_origin 5), path_pathname = ''/etc'',
        path_follow = True\<rparr>
   \<and> path_joined example_path ''b/./c'' =
       \<lparr>path_origin = example_origin 5, path_pathname = ''a/b/c'', path_follow = True\<rparr>"
proof -
  have h: "take 1 ''/etc'' = ''/''" "take 1 ''b/./c'' \<noteq> ''/''" by simp_all
  have v: "pathname_normalize (''a'' @ ''/'' @ ''b/./c'') = ''a/b/c''"
    by code_simp
  show ?thesis
    using path_joined_correct [of "''/etc''" example_path "''b/./c''" "''x''"] h v
    by (simp add: example_path_def)
qed

lemma map_of_put_fd: "map_of (put_fd h v objs) k = (if k = h then Some v else map_of objs k)"
  by (induction objs) auto

lemma fst_put_fd: "set (map fst (put_fd h v objs)) = insert h (set (map fst objs))"
proof (induction objs)
  case Nil
  show ?case by simp
next
  case (Cons kv objs)
  obtain k x where kv: "kv = (k, x)" by (cases kv)
  show ?case
  proof (cases "k = h")
    case True
    then show ?thesis by (simp add: kv)
  next
    case False
    then have "set (map fst (put_fd h v (kv # objs))) = insert k (set (map fst (put_fd h v objs)))"
      by (simp add: kv)
    also have "\<dots> = insert k (insert h (set (map fst objs)))"
      by (simp only: Cons.IH)
    finally show ?thesis by (simp add: kv insert_commute)
  qed
qed

lemma distinct_put_fd: "distinct (map fst objs) \<Longrightarrow> distinct (map fst (put_fd h v objs))"
proof (induction objs)
  case Nil
  show ?case by simp
next
  case (Cons kv objs)
  obtain k x where kv: "kv = (k, x)" by (cases kv)
  show ?case
  proof (cases "k = h")
    case True
    with Cons.prems show ?thesis by (simp add: kv)
  next
    case False
    have "k \<notin> set (map fst (put_fd h v objs))"
      using Cons.prems False unfolding fst_put_fd by (simp add: kv)
    with Cons False show ?thesis by (simp add: kv)
  qed
qed

lemma owned_put_fd_new:
  "map_of objs h = None \<Longrightarrow>
     owned (put_fd h v objs) = owned objs + (if v = - 1 then {#} else {#v#})"
  by (induction objs) (auto simp: owned_def split: if_splits)

lemma owned_put_fd_old:
  "map_of objs h = Some x \<Longrightarrow>
     owned (put_fd h v objs) + (if x = - 1 then {#} else {#x#}) =
     owned objs + (if v = - 1 then {#} else {#v#})"
  by (induction objs) (auto simp: owned_def split: if_splits)

lemma map_of_drop_object:
  "map_of (drop_object h objs) k = (if k = h then None else map_of objs k)"
  by (induction objs) (auto simp: drop_object_def)

lemma distinct_drop_object:
  "distinct (map fst objs) \<Longrightarrow> distinct (map fst (drop_object h objs))"
  by (simp add: drop_object_def distinct_map_filter)

lemma owned_drop_object:
  "distinct (map fst objs) \<Longrightarrow> map_of objs h = Some x \<Longrightarrow>
     owned (drop_object h objs) + (if x = - 1 then {#} else {#x#}) = owned objs"
proof (induction objs)
  case Nil
  then show ?case by simp
next
  case (Cons kv objs)
  obtain k y where kv: "kv = (k, y)" by (cases kv)
  show ?case
  proof (cases "k = h")
    case True
    have "h \<notin> fst ` set objs" using Cons.prems(1) True by (simp add: kv)
    then have "drop_object h objs = objs"
      by (auto simp: drop_object_def filter_id_conv)
    with Cons.prems True show ?thesis
      by (auto simp: kv owned_def drop_object_def)
  next
    case False
    with Cons show ?thesis
      by (auto simp: kv owned_def drop_object_def)
  qed
qed

lemma accounted_initial: "accounted initial_state"
  by (simp add: accounted_def initial_state_def owned_def)

lemma accounted_close:
  assumes "accounted s"
  shows "accounted (handle_close sys_close h s)"
proof (cases "map_of (objects s) h")
  case None
  with assms show ?thesis by (simp add: handle_close_def)
next
  case (Some fd)
  show ?thesis
  proof (cases "fd = - 1")
    case True
    with Some assms show ?thesis by (simp add: handle_close_def)
  next
    case False
    have "owned (put_fd h (- 1) (objects s)) + {#fd#} = owned (objects s)"
      using owned_put_fd_old [OF Some, of "- 1"] False by simp
    then have "mset (placed s) =
        mset (closed s @ [fd]) + mset (released s) + owned (put_fd h (- 1) (objects s))"
      using assms by (simp add: accounted_def ac_simps)
    then show ?thesis
      using assms Some False
      by (simp add: handle_close_def accounted_def distinct_put_fd Let_def)
  qed
qed

lemma accounted_swap:
  assumes "accounted s"
  shows "accounted (handle_swap h rhs s)"
proof (cases "map_of (objects s) h")
  case None
  with assms show ?thesis by (simp add: handle_swap_def)
next
  case a: (Some a)
  show ?thesis
  proof (cases "map_of (objects s) rhs")
    case None
    with a assms show ?thesis by (simp add: handle_swap_def)
  next
    case b: (Some b)
    let ?o1 = "put_fd h b (objects s)"
    have 1: "owned ?o1 + (if a = - 1 then {#} else {#a#}) =
        owned (objects s) + (if b = - 1 then {#} else {#b#})"
      by (rule owned_put_fd_old [OF a])
    have r: "map_of ?o1 rhs = Some b"
      using b by (simp add: map_of_put_fd)
    have 2: "owned (put_fd rhs a ?o1) + (if b = - 1 then {#} else {#b#}) =
        owned ?o1 + (if a = - 1 then {#} else {#a#})"
      by (rule owned_put_fd_old [OF r])
    from 1 2 have "owned (put_fd rhs a ?o1) = owned (objects s)"
      by (metis add_right_imp_eq)
    then show ?thesis
      using assms a b by (simp add: handle_swap_def accounted_def distinct_put_fd)
  qed
qed

lemma map_of_close:
  "map_of (objects s) h = Some fd \<Longrightarrow>
     map_of (objects (handle_close sys_close h s)) h = Some (- 1)"
  by (simp add: handle_close_def Let_def map_of_put_fd)

lemma close_keeps_observers:
  "placed (handle_close sys_close h s) = placed s"
  "released (handle_close sys_close h s) = released s"
  by (simp_all add: handle_close_def Let_def split: option.split)

lemma accounted_step:
  assumes "accounted s" and "step sys_close op s = Some s'"
  shows "accounted s'"
proof (cases "terminated s")
  case True
  with assms show ?thesis by (cases op) simp_all
next
  case run: False
  note inv = assms(1) [unfolded accounted_def]
  show ?thesis
  proof (cases op)
    case (Construct_empty h)
    with assms(2) run have n: "map_of (objects s) h = None"
      and s': "s' = s\<lparr>objects := put_fd h (- 1) (objects s)\<rparr>"
      by (auto simp: alive_def split: if_splits)
    show ?thesis
      using inv owned_put_fd_new [OF n, of "- 1"]
      by (simp add: s' accounted_def distinct_put_fd)
  next
    case (Construct h fd)
    with assms(2) run have n: "map_of (objects s) h = None"
      and s': "s' = s\<lparr>objects := put_fd h fd (objects s), placed := observe fd (placed s)\<rparr>"
      by (auto simp: alive_def split: if_splits)
    show ?thesis
      using inv owned_put_fd_new [OF n, of fd]
      by (simp add: s' accounted_def distinct_put_fd observe_def)
  next
    case (Move_construct h rhs)
    with assms(2) run obtain x where n: "map_of (objects s) h = None"
      and x: "map_of (objects s) rhs = Some x"
      and s': "s' = s\<lparr>objects := put_fd rhs (- 1) (put_fd h x (objects s))\<rparr>"
      by (auto simp: alive_def split: if_splits)
    let ?o1 = "put_fd h x (objects s)"
    have 1: "owned ?o1 = owned (objects s) + (if x = - 1 then {#} else {#x#})"
      by (rule owned_put_fd_new [OF n])
    have "rhs \<noteq> h" using n x by auto
    then have r: "map_of ?o1 rhs = Some x" using x by (simp add: map_of_put_fd)
    have 2: "owned (put_fd rhs (- 1) ?o1) + (if x = - 1 then {#} else {#x#}) = owned ?o1 + {#}"
      using owned_put_fd_old [OF r, of "- 1"] by simp
    from 1 2 have "owned (put_fd rhs (- 1) ?o1) = owned (objects s)" by simp
    then show ?thesis
      using inv by (simp add: s' accounted_def distinct_put_fd)
  next
    case (Destroy h)
    with assms(2) run obtain x where x: "map_of (objects s) h = Some x"
      and s': "s' = (handle_close sys_close h s)
                 \<lparr>objects := drop_object h (objects (handle_close sys_close h s))\<rparr>"
      by (auto simp: alive_def Let_def split: if_splits)
    let ?c = "handle_close sys_close h s"
    have c: "accounted ?c" by (rule accounted_close [OF assms(1)])
    have "owned (drop_object h (objects ?c)) + {#} = owned (objects ?c)"
      using owned_drop_object [OF _ map_of_close [OF x], of sys_close] c
      by (simp add: accounted_def)
    then show ?thesis
      using c by (simp add: s' accounted_def distinct_drop_object)
  next
    case (Move_assign h rhs)
    with assms(2) run have "s' = handle_close sys_close rhs (handle_swap h rhs s)"
      by (auto split: if_splits)
    then show ?thesis
      by (simp add: accounted_close accounted_swap assms(1))
  next
    case (Swap h rhs)
    with assms(2) run have "s' = handle_swap h rhs s"
      by (auto split: if_splits)
    then show ?thesis
      by (simp add: accounted_swap assms(1))
  next
    case (Release h)
    with assms(2) run obtain x where x: "map_of (objects s) h = Some x"
      and s': "s' = s\<lparr>objects := put_fd h (- 1) (objects s), released := observe x (released s)\<rparr>"
      by (auto simp: alive_def split: if_splits)
    have "owned (put_fd h (- 1) (objects s)) + (if x = - 1 then {#} else {#x#}) = owned (objects s)"
      using owned_put_fd_old [OF x, of "- 1"] by simp
    then show ?thesis
      using inv by (auto simp: s' accounted_def distinct_put_fd observe_def)
  qed
qed

lemma accounted_run:
  "accounted s \<Longrightarrow> run sys_close ops s = Some s' \<Longrightarrow> accounted s'"
proof (induction ops arbitrary: s)
  case Nil
  then show ?case by simp
next
  case (Cons op ops)
  from Cons.prems(2) obtain s1 where 1: "step sys_close op s = Some s1"
    and 2: "run sys_close ops s1 = Some s'"
    by (auto split: option.splits)
  from accounted_step [OF Cons.prems(1) 1] 2 show ?case by (rule Cons.IH)
qed

lemma closed_grows_only_by_close:
  assumes "step sys_close op s = Some s'" and "closed s' \<noteq> closed s"
  shows "(\<exists>h. op = Destroy h) \<or> (\<exists>h rhs. op = Move_assign h rhs)"
  using assms by (cases op) (auto simp: handle_swap_def split: if_splits option.splits)

lemma close_never_empty:
  "- 1 \<notin> set (closed s) \<Longrightarrow> - 1 \<notin> set (closed (handle_close sys_close h s))"
  by (auto simp: handle_close_def Let_def split: option.splits)

lemma disjoint_parts:
  assumes "distinct xs" and "mset xs = mset cs + mset rs + m"
  shows "distinct cs \<and> set cs \<inter> set rs = {} \<and> set cs \<inter> set_mset m = {}"
proof -
  have le: "count (mset cs) a + count (mset rs) a + count m a \<le> 1" for a
  proof -
    have "count (mset xs) a \<le> 1"
      using assms(1) by (simp add: distinct_count_atmost_1)
    then show ?thesis by (simp add: assms(2))
  qed
  have "distinct cs"
    unfolding distinct_count_atmost_1
  proof (intro allI)
    fix a
    show "count (mset cs) a = (if a \<in> set cs then 1 else 0)"
    proof (cases "a \<in> set cs")
      case True
      then have "count (mset cs) a > 0" by (rule count_mset_gt_0)
      with le [of a] have "count (mset cs) a = 1" by linarith
      with True show ?thesis by simp
    next
      case False
      then show ?thesis by (simp add: count_mset_0_iff)
    qed
  qed
  moreover have "set cs \<inter> set rs = {}"
  proof (rule ccontr)
    assume "set cs \<inter> set rs \<noteq> {}"
    then obtain a where "a \<in># mset cs" "a \<in># mset rs" by auto
    then have "count (mset cs) a > 0" "count (mset rs) a > 0"
      by (simp_all only: count_greater_zero_iff)
    with le [of a] show False by linarith
  qed
  moreover have "set cs \<inter> set_mset m = {}"
  proof (rule ccontr)
    assume "set cs \<inter> set_mset m \<noteq> {}"
    then obtain a where "a \<in># mset cs" "a \<in># m" by auto
    then have "count (mset cs) a > 0" "count m a > 0"
      by (simp_all only: count_greater_zero_iff)
    with le [of a] show False by linarith
  qed
  ultimately show ?thesis by blast
qed
lemma step_never_closes_empty:
  assumes "- 1 \<notin> set (closed s)" and "step sys_close op s = Some s'"
  shows "- 1 \<notin> set (closed s')"
proof (cases "terminated s")
  case True
  with assms show ?thesis by (cases op) simp_all
next
  case False
  have swap: "closed (handle_swap h rhs s) = closed s" for h rhs
    by (simp add: handle_swap_def split: option.split)
  show ?thesis
  proof (cases op)
    case (Destroy h)
    with assms False show ?thesis
      using close_never_empty [of s sys_close h] by (auto simp: Let_def split: if_splits)
  next
    case (Move_assign h rhs)
    with assms False show ?thesis
      using close_never_empty [of "handle_swap h rhs s" sys_close rhs]
      by (auto simp: swap split: if_splits)
  qed (use assms False in \<open>auto simp: swap split: if_splits\<close>)
qed

lemma run_never_closes_empty:
  "- 1 \<notin> set (closed s) \<Longrightarrow> run sys_close ops s = Some s' \<Longrightarrow> - 1 \<notin> set (closed s')"
proof (induction ops arbitrary: s)
  case Nil
  then show ?case by simp
next
  case (Cons op ops)
  from Cons.prems(2) obtain s1 where 1: "step sys_close op s = Some s1"
    and 2: "run sys_close ops s1 = Some s'"
    by (auto split: option.splits)
  from step_never_closes_empty [OF Cons.prems(1) 1] 2 show ?case by (rule Cons.IH)
qed

text \<open>
  Claim C9. A handle object holds one descriptor or none, and no operation copies one.
  After any defined sequence of constructions, moves, swaps, move assignments, releases
  and destructions, every descriptor that was given to a handle, counted as often as it
  was given, has been passed to \<^verbatim>\<open>::close\<close> once, or was returned by \<^verbatim>\<open>release()\<close>, or is
  owned by one live object; \<open>-1\<close> is never closed. With each descriptor given once,
  none is closed twice, none is closed that was released, and none is closed that is
  still owned; when no object is left, closed and released descriptors together are all
  that were given. Only a destruction or a move assignment closes, and \<^verbatim>\<open>release()\<close>
  leaves its handle empty without closing.
\<close>

theorem handle_closes_once:
  assumes "run sys_close ops initial_state = Some s"
  shows "mset (placed s) = mset (closed s) + mset (released s) + owned (objects s)
    \<and> distinct (map fst (objects s))
    \<and> - 1 \<notin> set (closed s)
    \<and> (distinct (placed s) \<longrightarrow>
          distinct (closed s) \<and> set (closed s) \<inter> set (released s) = {}
          \<and> set (closed s) \<inter> set_mset (owned (objects s)) = {})
    \<and> (objects s = [] \<longrightarrow> mset (placed s) = mset (closed s) + mset (released s))
    \<and> (step sys_close op s = Some s1 \<and> closed s1 \<noteq> closed s \<longrightarrow>
          (\<exists>h. op = Destroy h) \<or> (\<exists>h rhs. op = Move_assign h rhs))
    \<and> (\<not> terminated s \<and> alive s h \<longrightarrow>
          (\<exists>s2. step sys_close (Release h) s = Some s2
             \<and> map_of (objects s2) h = Some (- 1) \<and> closed s2 = closed s))"
proof -
  have acc: "accounted s"
    using accounted_initial assms by (rule accounted_run)
  then have eq: "mset (placed s) = mset (closed s) + mset (released s) + owned (objects s)"
    and dist: "distinct (map fst (objects s))"
    by (simp_all add: accounted_def)
  have empty: "- 1 \<notin> set (closed s)"
    using run_never_closes_empty [OF _ assms] by (simp add: initial_state_def)
  have once: "distinct (closed s) \<and> set (closed s) \<inter> set (released s) = {}
      \<and> set (closed s) \<inter> set_mset (owned (objects s)) = {}" if "distinct (placed s)"
    using that eq by (rule disjoint_parts)
  have final: "mset (placed s) = mset (closed s) + mset (released s)" if "objects s = []"
    using eq that by (simp add: owned_def)
  have only: "(\<exists>h. op = Destroy h) \<or> (\<exists>h rhs. op = Move_assign h rhs)"
    if "step sys_close op s = Some s1 \<and> closed s1 \<noteq> closed s"
    using that closed_grows_only_by_close by blast
  have rel: "\<exists>s2. step sys_close (Release h) s = Some s2
      \<and> map_of (objects s2) h = Some (- 1) \<and> closed s2 = closed s"
    if "\<not> terminated s \<and> alive s h"
    using that by (simp add: map_of_put_fd)
  show ?thesis
    using eq dist empty once final only rel by (intro conjI impI) blast+
qed

theorem handle_closes_once_witness:
  "run (\<lambda>fd. 0) example_program initial_state =
     Some \<lparr>objects = [], closed = [4, 3], terminated = False, placed = [3, 4, 5], released = [5]\<rparr>
   \<and> distinct [3, 4, 5 :: int]
   \<and> mset [3, 4, 5 :: int] = mset [4, 3] + mset [5]
   \<and> set [4, 3 :: int] \<inter> set [5] = {}
   \<and> run (\<lambda>fd. 0) (take 6 example_program) initial_state =
       Some \<lparr>objects = [(0, - 1), (1, 3), (2, - 1), (3, - 1)], closed = [4],
             terminated = False, placed = [3, 4], released = []\<rparr>
   \<and> step (\<lambda>fd. 0) (Destroy 1)
        \<lparr>objects = [(0, - 1), (1, 3), (2, - 1), (3, - 1)], closed = [4],
         terminated = False, placed = [3, 4], released = []\<rparr> =
       Some \<lparr>objects = [(0, - 1), (2, - 1), (3, - 1)], closed = [4, 3],
             terminated = False, placed = [3, 4], released = []\<rparr>
   \<and> alive \<lparr>objects = [(0, - 1), (1, 3), (2, - 1), (3, - 1)], closed = [4],
              terminated = False, placed = [3, 4], released = []\<rparr> 1"
proof -
  let ?final = "\<lparr>objects = [], closed = [4, 3], terminated = False, placed = [3, 4, 5],
      released = [5]\<rparr>"
  let ?mid = "\<lparr>objects = [(0, - 1), (1, 3), (2, - 1), (3, - 1)], closed = [4],
      terminated = False, placed = [3, 4], released = []\<rparr>"
  let ?after = "\<lparr>objects = [(0, - 1), (2, - 1), (3, - 1)], closed = [4, 3],
      terminated = False, placed = [3, 4], released = []\<rparr>"
  have r1: "run (\<lambda>fd. 0) example_program initial_state = Some ?final"
    by code_simp
  have r2: "run (\<lambda>fd. 0) (take 6 example_program) initial_state = Some ?mid"
    by code_simp
  have st: "step (\<lambda>fd. 0) (Destroy 1) ?mid = Some ?after"
    by code_simp
  have al: "alive ?mid 1" by (simp add: alive_def)
  note t1 = handle_closes_once [OF r1]
  note t2 = handle_closes_once [OF r2, where op = "Destroy 1" and ?s1.0 = ?after and h = 1]
  have "mset [3, 4, 5 :: int] = mset [4, 3] + mset [5]" "set [4, 3 :: int] \<inter> set [5] = {}"
    using t1 by simp_all
  moreover have "\<exists>s2. step (\<lambda>fd. 0) (Release 1) ?mid = Some s2
      \<and> map_of (objects s2) 1 = Some (- 1) \<and> closed s2 = closed ?mid"
    using t2 al by simp
  ultimately show ?thesis
    using r1 r2 st al by simp
qed

end
